theory Spec2Isabelle
  imports Main "HOL-Library.Word"
begin

section \<open>Data of bench.h and main.c\<close>

text \<open>
  The benchmark driver of sqlcipher-bench: \<^verbatim>\<open>bench.h\<close>, \<^verbatim>\<open>main.c\<close> and
  \<^verbatim>\<open>benchmark.c\<close>. C \<^verbatim>\<open>int\<close> values are modelled as \<^typ>\<open>int\<close>; the places where
  the C arithmetic differs from the mathematical one (unsigned remainder, truncating
  division) are written out. \<^verbatim>\<open>uint32_t\<close> is \<^typ>\<open>32 word\<close>. Isabelle reserves
  names that end in an underscore, so a C name such as \<^verbatim>\<open>num_\<close> takes a prime (\<open>num_'\<close>).
\<close>

type_synonym u32 = "32 word"

datatype Order = SEQUENTIAL | RANDOM

record Random =
  seed_' :: u32

text \<open>
  \<^verbatim>\<open>RandomGenerator\<close>: the pool \<^verbatim>\<open>data_\<close> (bytes), its size and the cursor.
\<close>

record RandomGenerator =
  data_' :: "8 word list"
  data_size_' :: nat
  pos_' :: int

text \<open>
  The flags of \<^verbatim>\<open>main.c\<close>. \<^verbatim>\<open>FLAGS_compression_ratio\<close> (a double) only feeds
  \<^verbatim>\<open>rand_gen_init\<close>, whose result is a parameter of the model, and is left out.
  A \<^verbatim>\<open>char*\<close> that may be \<^verbatim>\<open>NULL\<close> is a \<^typ>\<open>string option\<close>.
\<close>

record flags =
  FLAGS_benchmarks :: string
  FLAGS_num :: int
  FLAGS_reads :: int
  FLAGS_value_size :: int
  FLAGS_page_size :: int
  FLAGS_num_pages :: int
  FLAGS_use_existing_db :: bool
  FLAGS_transaction :: bool
  FLAGS_WAL_enabled :: bool
  FLAGS_db :: "string option"
  FLAGS_use_sqlcipher :: bool
  FLAGS_key :: "string option"

text \<open>\<^verbatim>\<open>init()\<close> of \<^verbatim>\<open>main.c\<close>: the defaults.\<close>

definition init :: flags where
  "init = \<lparr> FLAGS_benchmarks =
       ''fillseq,fillseqsync,fillrandom,fillrandsync,overwrite,overwritesync,'' @
       ''readrandom,readseq,fillrand100K,fillseq100K,readseq,readrand100K,'' @
       ''delete,deletesync,'',
     FLAGS_num = 1000000,
     FLAGS_reads = -1,
     FLAGS_value_size = 128,
     FLAGS_page_size = 1024,
     FLAGS_num_pages = 4096,
     FLAGS_use_existing_db = False,
     FLAGS_transaction = True,
     FLAGS_WAL_enabled = True,
     FLAGS_db = None,
     FLAGS_use_sqlcipher = False,
     FLAGS_key = None \<rparr>"

text \<open>
  One command-line argument, as the if-chain of \<^verbatim>\<open>main\<close> reads it: the constructor
  is the pattern (\<^verbatim>\<open>starts_with\<close>, \<^verbatim>\<open>sscanf\<close>, \<^verbatim>\<open>strcmp\<close>) the argument matches, with the
  integer \<^verbatim>\<open>sscanf("%d")\<close> stored in \<^verbatim>\<open>n\<close>; \<^verbatim>\<open>%d\<close> accepts a sign, so every C
  \<^verbatim>\<open>int\<close> can arrive. \<open>Arg_other\<close> is an argument that matches no pattern.
\<close>

datatype arg =
    Arg_benchmarks string
  | Arg_compression_ratio
  | Arg_use_existing_db int
  | Arg_num int
  | Arg_reads int
  | Arg_value_size int
  | Arg_no_transaction
  | Arg_page_size int
  | Arg_num_pages int
  | Arg_WAL_enabled int
  | Arg_use_sqlcipher int
  | Arg_db string
  | Arg_key string
  | Arg_help
  | Arg_other string

text \<open>
  The body of the argument loop: \<open>Inl c\<close> is \<^verbatim>\<open>exit(c)\<close>. The 0/1 flags fall through
  to \<^verbatim>\<open>Invalid flag\<close> for any other number, as the chain's \<^verbatim>\<open>&&\<close> guard does.
\<close>

fun apply_arg :: "flags \<Rightarrow> arg \<Rightarrow> int + flags" where
  "apply_arg f (Arg_benchmarks b) = Inr (f\<lparr>FLAGS_benchmarks := b\<rparr>)"
| "apply_arg f Arg_compression_ratio = Inr f"
| "apply_arg f (Arg_use_existing_db n) =
     (if n = 0 \<or> n = 1 then Inr (f\<lparr>FLAGS_use_existing_db := (n \<noteq> 0)\<rparr>) else Inl 1)"
| "apply_arg f (Arg_num n) = Inr (f\<lparr>FLAGS_num := n\<rparr>)"
| "apply_arg f (Arg_reads n) = Inr (f\<lparr>FLAGS_reads := n\<rparr>)"
| "apply_arg f (Arg_value_size n) = Inr (f\<lparr>FLAGS_value_size := n\<rparr>)"
| "apply_arg f Arg_no_transaction = Inr (f\<lparr>FLAGS_transaction := False\<rparr>)"
| "apply_arg f (Arg_page_size n) = Inr (f\<lparr>FLAGS_page_size := n\<rparr>)"
| "apply_arg f (Arg_num_pages n) = Inr (f\<lparr>FLAGS_num_pages := n\<rparr>)"
| "apply_arg f (Arg_WAL_enabled n) =
     (if n = 0 \<or> n = 1 then Inr (f\<lparr>FLAGS_WAL_enabled := (n \<noteq> 0)\<rparr>) else Inl 1)"
| "apply_arg f (Arg_use_sqlcipher n) =
     (if n = 0 \<or> n = 1 then Inr (f\<lparr>FLAGS_use_sqlcipher := (n \<noteq> 0)\<rparr>) else Inl 1)"
| "apply_arg f (Arg_db p) = Inr (f\<lparr>FLAGS_db := Some p\<rparr>)"
| "apply_arg f (Arg_key k) = Inr (f\<lparr>FLAGS_key := Some k\<rparr>)"
| "apply_arg f Arg_help = Inl 0"
| "apply_arg f (Arg_other a) = Inl 1"

fun parse_args :: "flags \<Rightarrow> arg list \<Rightarrow> int + flags" where
  "parse_args f [] = Inr f"
| "parse_args f (a # as) =
     (case apply_arg f a of Inl c \<Rightarrow> Inl c | Inr f' \<Rightarrow> parse_args f' as)"

text \<open>
  \<^verbatim>\<open>main\<close> up to the call of \<^verbatim>\<open>benchmark_init\<close>: defaults, the argument loop, and the
  default database path \<^verbatim>\<open>"./"\<close> when \<^verbatim>\<open>--db=\<close> was not given.
\<close>

definition main_flags :: "arg list \<Rightarrow> int + flags" where
  "main_flags args =
     (case parse_args init args of
        Inl c \<Rightarrow> Inl c
      | Inr f \<Rightarrow> Inr (if FLAGS_db f = None then f\<lparr>FLAGS_db := Some ''./''\<rparr> else f))"

section \<open>The world outside benchmark.c\<close>

text \<open>
  What \<^verbatim>\<open>benchmark.c\<close> reads from outside its own text, as parameters:
  \<^item> \<open>FLAGS\<close>: the flags \<^verbatim>\<open>main\<close> has set;
  \<^item> \<open>db_ok k\<close>: whether the \<open>k\<close>-th call into the storage engine returns the status
    its check accepts (\<^verbatim>\<open>SQLITE_OK\<close>, or \<^verbatim>\<open>SQLITE_DONE\<close> for a step);
  \<^item> \<open>now_micros k\<close>: the \<open>k\<close>-th reading of the clock (\<^verbatim>\<open>util.c\<close>);
  \<^item> \<open>time0\<close>: what \<^verbatim>\<open>time(0)\<close> returns at initialization;
  \<^item> \<open>rand_init\<close>, \<open>rand_next\<close>: the generator of \<^verbatim>\<open>random.c\<close>, which is not among the
    sources: \<open>rand_next\<close> returns the drawn value and the new state;
  \<^item> \<open>rand_gen_init\<close>: the value generator \<^verbatim>\<open>rand_gen_init(&gen_, ratio)\<close> builds;
  \<^item> \<open>rate_text b t\<close>: the text \<^verbatim>\<open>"%6.1f MB/s"\<close> renders for
    \<^verbatim>\<open>(b / 1048576.0) / t\<close> (floating point, left uninterpreted);
  \<^item> \<open>rate_strlen\<close>: what \<^verbatim>\<open>strlen\<close> returns on the freshly allocated, uninitialised
    buffer \<^verbatim>\<open>rate\<close> in \<^verbatim>\<open>stop\<close>.
\<close>

record world =
  FLAGS :: flags
  db_ok :: "nat \<Rightarrow> bool"
  now_micros :: "nat \<Rightarrow> int"
  time0 :: int
  rand_init :: "u32 \<Rightarrow> Random"
  rand_next :: "Random \<Rightarrow> u32 \<times> Random"
  rand_gen_init :: RandomGenerator
  rate_text :: "int \<Rightarrow> int \<Rightarrow> string"
  rate_strlen :: nat

section \<open>Key and value generation\<close>

text \<open>
  \<^verbatim>\<open>rand_next(&rand_) % num\<close>: the left operand is \<^verbatim>\<open>uint32_t\<close>, so \<^verbatim>\<open>num\<close> is
  converted to \<^verbatim>\<open>uint32_t\<close>, the remainder is unsigned, and the result is converted
  back to \<^verbatim>\<open>int\<close> when stored in \<^verbatim>\<open>keys[i]\<close>.
\<close>

definition c_mod :: "u32 \<Rightarrow> int \<Rightarrow> int" where
  "c_mod v num = sint (v mod (word_of_int num :: u32))"

text \<open>
  \<^verbatim>\<open>gen_key\<close>: the two loops write \<^verbatim>\<open>keys[i]\<close> for \<open>i = 0, ..., num - 1\<close>. The array
  is the list \<open>keys\<close>, updated in place; the state of the global \<^verbatim>\<open>rand_\<close> is passed
  in and returned.
\<close>

function gen_key_seq :: "int list \<Rightarrow> int \<Rightarrow> int \<Rightarrow> int list" where
  "gen_key_seq keys i num =
     (if i < num then gen_key_seq (keys[nat i := i]) (i + 1) num else keys)"
  by pat_completeness auto
termination
  by (relation "measure (\<lambda>(keys, i, num). nat (num - i))") auto

function gen_key_rand ::
  "(Random \<Rightarrow> u32 \<times> Random) \<Rightarrow> int list \<Rightarrow> int \<Rightarrow> int \<Rightarrow> Random \<Rightarrow> int list \<times> Random"
where
  "gen_key_rand rn keys i num r =
     (if i < num
      then (case rn r of (v, r') \<Rightarrow> gen_key_rand rn (keys[nat i := c_mod v num]) (i + 1) num r')
      else (keys, r))"
  by pat_completeness auto
termination
  by (relation "measure (\<lambda>(rn, keys, i, num, r). nat (num - i))") auto

definition gen_key ::
  "(Random \<Rightarrow> u32 \<times> Random) \<Rightarrow> int list \<Rightarrow> int \<Rightarrow> Order \<Rightarrow> Random \<Rightarrow> int list \<times> Random"
where
  "gen_key rn keys num order r =
     (if order = SEQUENTIAL then (gen_key_seq keys 0 num, r)
      else gen_key_rand rn keys 0 num r)"

text \<open>
  The specification's side of the key-space generator: the first \<open>k\<close> values the
  generator draws from state \<open>r\<close>, and the state after them.
\<close>

primrec rand_draws :: "(Random \<Rightarrow> u32 \<times> Random) \<Rightarrow> nat \<Rightarrow> Random \<Rightarrow> u32 list" where
  "rand_draws rn 0 r = []"
| "rand_draws rn (Suc k) r = fst (rn r) # rand_draws rn k (snd (rn r))"

primrec rand_after :: "(Random \<Rightarrow> u32 \<times> Random) \<Rightarrow> nat \<Rightarrow> Random \<Rightarrow> Random" where
  "rand_after rn 0 r = r"
| "rand_after rn (Suc k) r = rand_after rn k (snd (rn r))"

text \<open>
  Modelled from the spec: \<^verbatim>\<open>rand_gen_generate\<close> is declared in \<^verbatim>\<open>bench.h\<close> and defined
  in \<^verbatim>\<open>random.c\<close>, which is not among the sources. The specification: \<open>generate(len)\<close>
  returns a view of \<open>len\<close> contiguous bytes of the pool starting at the cursor, and
  advances the cursor by \<open>len\<close>, the cursor wrapping to offset 0 when the request would
  exceed the pool. The returned pointer is modelled as the offset of the view in the
  pool; \<open>view\<close> reads the bytes there.
\<close>

definition rand_gen_generate :: "RandomGenerator \<Rightarrow> int \<Rightarrow> int \<times> RandomGenerator" where
  "rand_gen_generate g len =
     (let p = (if pos_' g + len > int (data_size_' g) then 0 else pos_' g)
      in (p, g\<lparr>pos_' := p + len\<rparr>))"

definition view :: "RandomGenerator \<Rightarrow> int \<Rightarrow> int \<Rightarrow> 8 word list" where
  "view g p len = take (nat len) (drop (nat p) (data_' g))"

text \<open>\<^verbatim>\<open>gen_value\<close>: \<^verbatim>\<open>values[i] = rand_gen_generate(&gen_, value_size)\<close> for \<open>i < num\<close>.\<close>

function gen_value_loop ::
  "int list \<Rightarrow> int \<Rightarrow> int \<Rightarrow> int \<Rightarrow> RandomGenerator \<Rightarrow> int list \<times> RandomGenerator"
where
  "gen_value_loop vals i num value_size g =
     (if i < num
      then (case rand_gen_generate g value_size of
              (p, g') \<Rightarrow> gen_value_loop (vals[nat i := p]) (i + 1) num value_size g')
      else (vals, g))"
  by pat_completeness auto
termination
  by (relation "measure (\<lambda>(vals, i, num, value_size, g). nat (num - i))") auto

definition gen_value ::
  "int list \<Rightarrow> int \<Rightarrow> int \<Rightarrow> RandomGenerator \<Rightarrow> int list \<times> RandomGenerator"
where
  "gen_value vals num value_size g = gen_value_loop vals 0 num value_size g"

section \<open>The state of benchmark.c and its calls into the storage engine\<close>

text \<open>The SQL texts of \<^verbatim>\<open>benchmark.c\<close>, and its prepared statements.\<close>

datatype sql =
    CREATE_TABLE
  | REPLACE_INTO
  | SELECT_FROM
  | DELETE_FROM
  | BEGIN_TRANSACTION
  | END_TRANSACTION
  | PRAGMA_synchronous_FULL
  | PRAGMA_synchronous_OFF
  | PRAGMA_cache_size int
  | PRAGMA_page_size int
  | PRAGMA_journal_mode_WAL
  | PRAGMA_wal_autocheckpoint
  | PRAGMA_locking_mode_EXCLUSIVE

datatype stmt = replace_stmt | read_stmt | delete_stmt | begin_trans_stmt | end_trans_stmt

text \<open>
  A call into the storage engine. \<open>Bind_int st k v\<close> is
  \<^verbatim>\<open>sqlite3_bind_int(st, 1, keys[k])\<close>: \<open>k\<close> is the index read and \<open>v\<close> the element there,
  \<open>None\<close> when \<open>k\<close> lies outside the array (C leaves that read undefined). \<open>Bind_blob\<close>
  does the same for \<^verbatim>\<open>values[k]\<close>, with the value size. \<open>Step read_stmt\<close> and
  \<open>Step delete_stmt\<close> stand for the whole \<^verbatim>\<open>while (sqlite3_step(...) == SQLITE_ROW) {}\<close>.
\<close>

datatype call =
    Open string
  | Key string
  | Exec sql
  | Prepare stmt sql
  | Step stmt
  | Reset stmt
  | Bind_int stmt int "int option"
  | Bind_blob stmt int "int option" int
  | Clear_bindings stmt
  | Finalize stmt
  | Wal_checkpoint
  | Close

text \<open>
  What the program writes to the diagnostic stream. \<open>Header\<close> is the block of
  \<^verbatim>\<open>print_header\<close>, whose content (version, date, processor, sizes) is not looked into.
\<close>

datatype line =
    Header
  | Progress int
  | Unknown_benchmark string
  | Micros_per_op string int int
  | Micros_in_total string int

text \<open>
  Why the process ends early: the three checks of \<^verbatim>\<open>benchmark.c\<close> (each \<^verbatim>\<open>exit(1)\<close>),
  the open and key errors, the assertion of \<^verbatim>\<open>benchmark_open\<close>, a \<^verbatim>\<open>NULL\<close> string
  handed to the C library, and the exits of \<^verbatim>\<open>main\<close>.
\<close>

datatype exit_reason =
    SQL_error
  | SQL_step_error
  | sqlite3_error
  | open_error
  | input_key_error
  | assertion_failure
  | null_pointer
  | main_exit int

text \<open>
  The globals of \<^verbatim>\<open>benchmark.c\<close>. \<open>db_'\<close> tells whether \<^verbatim>\<open>db_\<close> is a connection
  (\<open>False\<close> is \<^verbatim>\<open>NULL\<close>). \<^verbatim>\<open>op_total_time_\<close> is a double that sums differences of
  microsecond counts; the model keeps the exact integer. Three more fields record what
  the program has done: the calls into the engine so far, the lines printed, and the
  number of clock readings. \<open>table_created\<close> is the memory of \<open>if_create_database\<close>.
\<close>

record bench =
  db_' :: bool
  num_' :: int
  reads_' :: int
  op_total_time_' :: int
  bytes_' :: int
  message_' :: "string option"
  gen_' :: RandomGenerator
  rand_' :: Random
  done_' :: int
  next_report_' :: int
  calls :: "call list"
  printed :: "line list"
  clock :: nat
  table_created :: bool

text \<open>
  A function of \<^verbatim>\<open>benchmark.c\<close> maps the state to an outcome: it returns with a new
  state, or the process exits. \<open>None\<close> is a call that never returns.
\<close>

datatype outcome = Returns bench | Exits exit_reason

type_synonym step = "bench \<Rightarrow> outcome option"

definition ret :: step where
  "ret s = Some (Returns s)"

definition thn :: "step \<Rightarrow> step \<Rightarrow> step" where
  "thn f g s = (case f s of Some (Returns s') \<Rightarrow> g s' | r \<Rightarrow> r)"

fun steps :: "step list \<Rightarrow> step" where
  "steps [] = ret"
| "steps (f # fs) = thn f (steps fs)"

text \<open>
  One checked call: the engine is called (the call is number \<open>length (calls s)\<close>), and
  the check that follows it exits with \<open>e\<close> unless the status is the accepted one.
\<close>

definition db_call :: "world \<Rightarrow> exit_reason \<Rightarrow> call \<Rightarrow> step" where
  "db_call w e c s =
     (if db_ok w (length (calls s)) then Some (Returns (s\<lparr>calls := calls s @ [c]\<rparr>))
      else Some (Exits e))"

text \<open>\<^verbatim>\<open>wal_checkpoint\<close>: the status of the call is not looked at.\<close>

definition wal_checkpoint :: "world \<Rightarrow> step" where
  "wal_checkpoint w s =
     (if FLAGS_WAL_enabled (FLAGS w) then ret (s\<lparr>calls := calls s @ [Wal_checkpoint]\<rparr>)
      else ret s)"

section \<open>Timing and progress\<close>

definition start :: "bench \<Rightarrow> bench" where
  "start s = s\<lparr>bytes_' := 0, message_' := Some [], done_' := 0, next_report_' := 100,
                op_total_time_' := 0\<rparr>"

text \<open>
  \<^verbatim>\<open>stop\<close>. \<^verbatim>\<open>snprintf(rate, strlen(rate), ...)\<close> writes at most \<^verbatim>\<open>strlen(rate) - 1\<close>
  characters of the rendered text into the fresh buffer; \<^verbatim>\<open>!strcmp(message_, "")\<close> holds
  when the message is empty.
\<close>

definition stop :: "world \<Rightarrow> string \<Rightarrow> bench \<Rightarrow> bench" where
  "stop w name s =
     (let s1 = (if done_' s < 1 then s\<lparr>done_' := 1\<rparr> else s);
          s2 = (if bytes_' s1 > 0
                then (let rate = take (rate_strlen w - 1)
                                   (rate_text w (bytes_' s1) (op_total_time_' s1))
                      in (case message_' s1 of
                            Some m \<Rightarrow>
                              if m = [] then s1\<lparr>message_' := Some ((rate @ '' '') @ m)\<rparr>
                              else s1\<lparr>message_' := Some rate\<rparr>
                          | None \<Rightarrow> s1\<lparr>message_' := Some rate\<rparr>))
                else s1)
      in s2\<lparr>printed := printed s2 @
            [Micros_per_op name (op_total_time_' s2) (done_' s2),
             Micros_in_total name (op_total_time_' s2)]\<rparr>)"

definition finish_single_op :: "bench \<Rightarrow> bench" where
  "finish_single_op s =
     (let s1 = s\<lparr>done_' := done_' s + 1\<rparr>
      in if done_' s1 \<ge> next_report_' s1
         then (let nr = next_report_' s1;
                   nr' = (if nr < 1000 then nr + 100
                          else if nr < 5000 then nr + 500
                          else if nr < 10000 then nr + 1000
                          else if nr < 50000 then nr + 5000
                          else if nr < 100000 then nr + 10000
                          else if nr < 500000 then nr + 50000
                          else nr + 100000)
               in s1\<lparr>next_report_' := nr', printed := printed s1 @ [Progress (done_' s1)]\<rparr>)
         else s1)"

section \<open>Initialization\<close>

text \<open>
  \<^verbatim>\<open>benchmark_init\<close>: the globals it assigns; the others start as C zero-initialises
  them. The removal of old database files from the directory is outside the model.
\<close>

definition benchmark_init :: "world \<Rightarrow> bench" where
  "benchmark_init w =
     \<lparr> db_' = False,
       num_' = FLAGS_num (FLAGS w),
       reads_' = (if FLAGS_reads (FLAGS w) < 0 then FLAGS_num (FLAGS w)
                  else FLAGS_reads (FLAGS w)),
       op_total_time_' = 0,
       bytes_' = 0,
       message_' = None,
       gen_' = rand_gen_init w,
       rand_' = rand_init w (word_of_int (time0 w)),
       done_' = 0,
       next_report_' = 0,
       calls = [],
       printed = [],
       clock = 0,
       table_created = False \<rparr>"



section \<open>The workloads\<close>

text \<open>
  Modelled from the spec: \<^verbatim>\<open>MAXNUMPERTIME\<close> is used by \<^verbatim>\<open>benchmark.c\<close> and defined in
  none of the sources; the specification gives the maximum number of keys per chunk as
  500,000, as the comment at each use does.
\<close>

definition MAXNUMPERTIME :: int where
  "MAXNUMPERTIME = 500000"

text \<open>\<^verbatim>\<open>a / b\<close> on C integers truncates towards zero.\<close>

definition c_div :: "int \<Rightarrow> int \<Rightarrow> int" where
  "c_div a b = sgn a * sgn b * (\<bar>a\<bar> div \<bar>b\<bar>)"

text \<open>\<^verbatim>\<open>%d\<close>: the decimal digits of an integer.\<close>

fun dec_nat :: "nat \<Rightarrow> string" where
  "dec_nat n = (if n < 10 then [char_of (48 + n)]
                else dec_nat (n div 10) @ [char_of (48 + n mod 10)])"

definition dec :: "int \<Rightarrow> string" where
  "dec n = (if n < 0 then CHR ''-'' # dec_nat (nat (- n)) else dec_nat (nat n))"

text \<open>Reading \<^verbatim>\<open>a[k]\<close> from an array: \<open>None\<close> outside it.\<close>

definition at :: "'a list \<Rightarrow> int \<Rightarrow> 'a option" where
  "at xs k = (if 0 \<le> k \<and> k < int (length xs) then Some (xs ! nat k) else None)"

text \<open>
  The two inner loops, which \<^verbatim>\<open>benchmark_write\<close>, \<^verbatim>\<open>benchmark_read\<close> and
  \<^verbatim>\<open>benchmark_delete\<close> share word for word:
  \<^verbatim>\<open>for (i = 0; i < n; i += entries_per_batch) for (j = 0; j < entries_per_batch; j++)\<close>,
  the body running at index \<open>i + j\<close>. The outer loop does not end when
  \<^verbatim>\<open>entries_per_batch\<close> is not positive, so it is a partial function.
\<close>

function for_j :: "(int \<Rightarrow> step) \<Rightarrow> int \<Rightarrow> int \<Rightarrow> int \<Rightarrow> step" where
  "for_j body i j entries_per_batch s =
     (if j < entries_per_batch
      then (case body (i + j) s of
              Some (Returns s') \<Rightarrow> for_j body i (j + 1) entries_per_batch s'
            | r \<Rightarrow> r)
      else Some (Returns s))"
  by pat_completeness auto
termination
  by (relation "measure (\<lambda>(body, i, j, entries_per_batch, s). nat (entries_per_batch - j))")
    auto

partial_function (option) for_i :: "(int \<Rightarrow> step) \<Rightarrow> int \<Rightarrow> int \<Rightarrow> int \<Rightarrow> step" where
  "for_i body i n entries_per_batch s =
     (if i < n
      then (case for_j body i 0 entries_per_batch s of
              None \<Rightarrow> None
            | Some r \<Rightarrow>
                (case r of
                   Returns s' \<Rightarrow> for_i body (i + entries_per_batch) n entries_per_batch s'
                 | Exits e \<Rightarrow> Some (Exits e)))
      else Some (Returns s))"

declare for_i.simps [code]

text \<open>
  The chunk loop, shared as well:
  \<^verbatim>\<open>for (int n = N > MAXNUMPERTIME ? MAXNUMPERTIME : N; n > 0; n -= MAXNUMPERTIME)\<close>;
  \<open>chunks body n\<close> is the loop from the value \<open>n\<close> of its variable on.
\<close>

function chunks :: "(int \<Rightarrow> step) \<Rightarrow> int \<Rightarrow> step" where
  "chunks body n s =
     (if n > 0
      then (case body n s of
              Some (Returns s') \<Rightarrow> chunks body (n - MAXNUMPERTIME) s'
            | r \<Rightarrow> r)
      else Some (Returns s))"
  by pat_completeness auto
termination
  by (relation "measure (\<lambda>(body, n, s). nat n)") (auto simp: MAXNUMPERTIME_def)

definition begin_transaction :: "world \<Rightarrow> step" where
  "begin_transaction w =
     (if FLAGS_transaction (FLAGS w)
      then steps [db_call w SQL_step_error (Step begin_trans_stmt),
                  db_call w sqlite3_error (Reset begin_trans_stmt)]
      else ret)"

definition end_transaction :: "world \<Rightarrow> step" where
  "end_transaction w =
     (if FLAGS_transaction (FLAGS w)
      then steps [db_call w SQL_step_error (Step end_trans_stmt),
                  db_call w sqlite3_error (Reset end_trans_stmt)]
      else ret)"

text \<open>
  What one chunk does between its two clock readings: begin the transaction, run the
  two loops, end the transaction; the elapsed time is added to \<^verbatim>\<open>op_total_time_\<close>.
\<close>

definition timed_batches :: "world \<Rightarrow> (int \<Rightarrow> step) \<Rightarrow> int \<Rightarrow> int \<Rightarrow> step" where
  "timed_batches w body n entries_per_batch s =
     (let started = now_micros w (clock s)
      in thn (steps [begin_transaction w, for_i body 0 n entries_per_batch, end_transaction w])
             (\<lambda>s'. ret (s'\<lparr>op_total_time_' :=
                               op_total_time_' s' + (now_micros w (clock s') - started),
                            clock := clock s' + 1\<rparr>))
             (s\<lparr>clock := clock s + 1\<rparr>))"

subsection \<open>benchmark_write\<close>

text \<open>The body of the inner loop at index \<open>k = i + j\<close>; \<^verbatim>\<open>sizeof(int)\<close> is 4.\<close>

definition write_entry :: "world \<Rightarrow> int list \<Rightarrow> int list \<Rightarrow> int \<Rightarrow> int \<Rightarrow> step" where
  "write_entry w keys vals value_size k =
     steps [db_call w sqlite3_error (Bind_int replace_stmt k (at keys k)),
            db_call w sqlite3_error (Bind_blob replace_stmt k (at vals k) value_size),
            \<lambda>s. ret (s\<lparr>bytes_' := bytes_' s + (value_size + 4)\<rparr>),
            db_call w SQL_step_error (Step replace_stmt),
            db_call w sqlite3_error (Clear_bindings replace_stmt),
            db_call w sqlite3_error (Reset replace_stmt),
            \<lambda>s. ret (finish_single_op s)]"

text \<open>
  One chunk of \<open>n\<close> entries. The arrays \<^verbatim>\<open>keys[n]\<close> and \<^verbatim>\<open>values[n]\<close> start with
  indeterminate content, which the generators overwrite; the model starts them at 0.
\<close>

definition write_chunk :: "world \<Rightarrow> Order \<Rightarrow> int \<Rightarrow> int \<Rightarrow> int \<Rightarrow> step" where
  "write_chunk w order value_size entries_per_batch n s =
     (case gen_key (rand_next w) (replicate (nat n) 0) n order (rand_' s) of
        (keys, r) \<Rightarrow>
          (case gen_value (replicate (nat n) 0) n value_size (gen_' s) of
             (vals, g) \<Rightarrow>
               timed_batches w (write_entry w keys vals value_size) n entries_per_batch
                 (s\<lparr>rand_' := r, gen_' := g\<rparr>)))"

definition benchmark_write :: "world \<Rightarrow> bool \<Rightarrow> Order \<Rightarrow> int \<Rightarrow> int \<Rightarrow> int \<Rightarrow> step" where
  "benchmark_write w write_sync order num_entries value_size entries_per_batch =
     steps
      [\<lambda>s. ret (if num_entries \<noteq> num_' s
                 then s\<lparr>message_' := Some (take 99 (''('' @ dec num_entries @ '' ops)''))\<rparr>
                 else s),
       db_call w SQL_error
         (Exec (if write_sync then PRAGMA_synchronous_FULL else PRAGMA_synchronous_OFF)),
       db_call w sqlite3_error (Prepare replace_stmt REPLACE_INTO),
       db_call w sqlite3_error (Prepare begin_trans_stmt BEGIN_TRANSACTION),
       db_call w sqlite3_error (Prepare end_trans_stmt END_TRANSACTION),
       chunks (write_chunk w order value_size entries_per_batch)
         (if num_entries > MAXNUMPERTIME then MAXNUMPERTIME else num_entries),
       db_call w sqlite3_error (Finalize replace_stmt),
       db_call w sqlite3_error (Finalize begin_trans_stmt),
       db_call w sqlite3_error (Finalize end_trans_stmt)]"

subsection \<open>benchmark_read\<close>

definition read_entry :: "world \<Rightarrow> int list \<Rightarrow> int \<Rightarrow> step" where
  "read_entry w keys k =
     steps [db_call w sqlite3_error (Bind_int read_stmt k (at keys k)),
            db_call w SQL_step_error (Step read_stmt),
            db_call w sqlite3_error (Clear_bindings read_stmt),
            db_call w sqlite3_error (Reset read_stmt),
            \<lambda>s. ret (finish_single_op s)]"

definition read_chunk :: "world \<Rightarrow> Order \<Rightarrow> int \<Rightarrow> int \<Rightarrow> step" where
  "read_chunk w order entries_per_batch n s =
     (case gen_key (rand_next w) (replicate (nat n) 0) n order (rand_' s) of
        (keys, r) \<Rightarrow>
          timed_batches w (read_entry w keys) n entries_per_batch (s\<lparr>rand_' := r\<rparr>))"

definition benchmark_read :: "world \<Rightarrow> Order \<Rightarrow> int \<Rightarrow> step" where
  "benchmark_read w order entries_per_batch =
     steps
      [db_call w sqlite3_error (Prepare begin_trans_stmt BEGIN_TRANSACTION),
       db_call w sqlite3_error (Prepare end_trans_stmt END_TRANSACTION),
       db_call w sqlite3_error (Prepare read_stmt SELECT_FROM),
       \<lambda>s. chunks (read_chunk w order entries_per_batch)
              (if reads_' s > MAXNUMPERTIME then MAXNUMPERTIME else reads_' s) s,
       db_call w sqlite3_error (Finalize read_stmt),
       db_call w sqlite3_error (Finalize begin_trans_stmt),
       db_call w sqlite3_error (Finalize end_trans_stmt)]"

subsection \<open>benchmark_delete\<close>

definition delete_entry :: "world \<Rightarrow> int list \<Rightarrow> int \<Rightarrow> step" where
  "delete_entry w keys k =
     steps [db_call w sqlite3_error (Bind_int delete_stmt k (at keys k)),
            db_call w SQL_step_error (Step delete_stmt),
            db_call w sqlite3_error (Clear_bindings delete_stmt),
            db_call w sqlite3_error (Reset delete_stmt),
            \<lambda>s. ret (finish_single_op s)]"

definition delete_chunk :: "world \<Rightarrow> Order \<Rightarrow> int \<Rightarrow> int \<Rightarrow> step" where
  "delete_chunk w order entries_per_batch n s =
     (case gen_key (rand_next w) (replicate (nat n) 0) n order (rand_' s) of
        (keys, r) \<Rightarrow>
          timed_batches w (delete_entry w keys) n entries_per_batch (s\<lparr>rand_' := r\<rparr>))"

definition benchmark_delete :: "world \<Rightarrow> bool \<Rightarrow> Order \<Rightarrow> int \<Rightarrow> step" where
  "benchmark_delete w write_sync order entries_per_batch =
     steps
      [db_call w SQL_error
         (Exec (if write_sync then PRAGMA_synchronous_FULL else PRAGMA_synchronous_OFF)),
       db_call w sqlite3_error (Prepare begin_trans_stmt BEGIN_TRANSACTION),
       db_call w sqlite3_error (Prepare end_trans_stmt END_TRANSACTION),
       db_call w sqlite3_error (Prepare delete_stmt DELETE_FROM),
       \<lambda>s. chunks (delete_chunk w order entries_per_batch)
              (if num_' s > MAXNUMPERTIME then MAXNUMPERTIME else num_' s) s,
       db_call w sqlite3_error (Finalize delete_stmt),
       db_call w sqlite3_error (Finalize begin_trans_stmt),
       db_call w sqlite3_error (Finalize end_trans_stmt)]"

section \<open>benchmark_run\<close>

text \<open>
  Modelled from the spec: \<^verbatim>\<open>if_create_database\<close> is declared in \<^verbatim>\<open>bench.h\<close> and defined
  in \<^verbatim>\<open>util.c\<close>, which is not among the sources. The specification: a workload that is
  a write and not an overwrite needs a fresh table, and the schema is created once,
  before the first such workload of the run; an unknown name resolves to no workload.
  These are the workloads that need a fresh table.
\<close>

definition fresh_table_workloads :: "string list" where
  "fresh_table_workloads =
     [''fillseq'', ''fillseqsync'', ''fillseqbatch'', ''fillrandom'', ''fillrandsync'',
      ''fillrandbatch'', ''fillrand100K'', ''fillseq100K'']"

text \<open>
  Modelled from the spec: \<^verbatim>\<open>if_create_database(name)\<close> answers whether the table is to
  be created before the workload of this name; \<open>table_created\<close> remembers that it was.
\<close>

definition if_create_database :: "string \<Rightarrow> bench \<Rightarrow> bool \<times> bench" where
  "if_create_database name s =
     (if name \<in> set fresh_table_workloads \<and> \<not> table_created s
      then (True, s\<lparr>table_created := True\<rparr>) else (False, s))"

text \<open>
  The if-chain of \<^verbatim>\<open>benchmark_run\<close> over the name: the workload a known name runs
  (with its \<^verbatim>\<open>wal_checkpoint\<close>), in the chain's order; \<open>None\<close> is the final
  \<^verbatim>\<open>else\<close>, which sets \<^verbatim>\<open>known = false\<close>.
\<close>

definition workload :: "world \<Rightarrow> string \<Rightarrow> step option" where
  "workload w name =
     (let vs = FLAGS_value_size (FLAGS w) in
      if name = ''fillseq'' then Some (\<lambda>s.
        steps [benchmark_write w False SEQUENTIAL (num_' s) vs 1, wal_checkpoint w] s)
      else if name = ''fillseqbatch'' then Some (\<lambda>s.
        steps [benchmark_write w False SEQUENTIAL (num_' s) vs 1000, wal_checkpoint w] s)
      else if name = ''fillrandom'' then Some (\<lambda>s.
        steps [benchmark_write w False RANDOM (num_' s) vs 1, wal_checkpoint w] s)
      else if name = ''fillrandbatch'' then Some (\<lambda>s.
        steps [benchmark_write w False RANDOM (num_' s) vs 1000, wal_checkpoint w] s)
      else if name = ''overwrite'' then Some (\<lambda>s.
        steps [benchmark_write w False RANDOM (num_' s) vs 1, wal_checkpoint w] s)
      else if name = ''overwritesync'' then Some (\<lambda>s.
        steps [benchmark_write w True RANDOM (num_' s) vs 1, wal_checkpoint w] s)
      else if name = ''overwritebatch'' then Some (\<lambda>s.
        steps [benchmark_write w False RANDOM (num_' s) vs 1000, wal_checkpoint w] s)
      else if name = ''fillrandsync'' then Some (\<lambda>s.
        steps [benchmark_write w True RANDOM (num_' s) vs 1, wal_checkpoint w] s)
      else if name = ''fillseqsync'' then Some (\<lambda>s.
        steps [benchmark_write w True SEQUENTIAL (num_' s) vs 1, wal_checkpoint w] s)
      else if name = ''fillrand100K'' then Some (\<lambda>s.
        steps [benchmark_write w False RANDOM (c_div (num_' s) 1000) (100 * 1000) 1,
               wal_checkpoint w] s)
      else if name = ''fillseq100K'' then Some (\<lambda>s.
        steps [benchmark_write w False SEQUENTIAL (c_div (num_' s) 1000) (100 * 1000) 1,
               wal_checkpoint w] s)
      else if name = ''readseq'' then Some (benchmark_read w SEQUENTIAL 1)
      else if name = ''readrandom'' then Some (benchmark_read w RANDOM 1)
      else if name = ''readrand100K'' then Some (\<lambda>s.
        (let n = reads_' s
         in steps [\<lambda>s. ret (s\<lparr>reads_' := c_div (reads_' s) 1000\<rparr>),
                   benchmark_read w RANDOM 1,
                   \<lambda>s. ret (s\<lparr>reads_' := n\<rparr>)] s))
      else if name = ''delete'' then Some (\<lambda>s.
        steps [benchmark_delete w False RANDOM 1, wal_checkpoint w] s)
      else if name = ''deletesync'' then Some (\<lambda>s.
        steps [benchmark_delete w True RANDOM 1, wal_checkpoint w] s)
      else None)"

text \<open>
  The body of the \<^verbatim>\<open>while\<close> loop of \<^verbatim>\<open>benchmark_run\<close> for one name: create the table
  if \<open>if_create_database\<close> says so, reset the counters, run the workload and \<^verbatim>\<open>stop\<close>,
  or warn about an unknown name that is not empty.
\<close>

definition run_benchmark :: "world \<Rightarrow> string \<Rightarrow> step" where
  "run_benchmark w name =
     steps
      [\<lambda>s. (case if_create_database name s of
               (create, s') \<Rightarrow>
                 if create then db_call w SQL_error (Exec CREATE_TABLE) s' else ret s'),
       \<lambda>s. ret (start (s\<lparr>bytes_' := 0\<rparr>)),
       (case workload w name of
          Some run \<Rightarrow> thn run (\<lambda>s. ret (stop w name s))
        | None \<Rightarrow>
            (\<lambda>s. ret (if name \<noteq> [] then s\<lparr>printed := printed s @ [Unknown_benchmark name]\<rparr>
                       else s)))]"

text \<open>
  The \<^verbatim>\<open>while\<close> loop: \<^verbatim>\<open>strchr(benchmarks, ',')\<close> splits off the name before the first
  comma; without a comma the rest of the list is the last name. \<open>None\<close> is the \<^verbatim>\<open>NULL\<close>
  that ends the loop.
\<close>

function run_benchmarks :: "world \<Rightarrow> string option \<Rightarrow> step" where
  "run_benchmarks w benchmarks s =
     (case benchmarks of
        None \<Rightarrow> Some (Returns s)
      | Some b \<Rightarrow>
          (case run_benchmark w (takeWhile (\<lambda>c. c \<noteq> CHR '','') b) s of
             Some (Returns s') \<Rightarrow>
               run_benchmarks w
                 (if CHR '','' \<in> set b then Some (tl (dropWhile (\<lambda>c. c \<noteq> CHR '','') b))
                  else None) s'
           | r \<Rightarrow> r))"
  by pat_completeness auto
termination
proof (relation "measure (\<lambda>(w, benchmarks, s). case benchmarks of None \<Rightarrow> 0 | Some b \<Rightarrow> Suc (length b))")
  show "wf (measure (\<lambda>(w, benchmarks, s). case benchmarks of None \<Rightarrow> 0 | Some b \<Rightarrow> Suc (length b)))"
    by simp
next
  fix w :: world and benchmarks :: "string option" and s :: bench and b x2 x1
  assume "benchmarks = Some b"
  have "length (dropWhile (\<lambda>c. c \<noteq> CHR '','') b) \<le> length b"
    by (rule length_dropWhile_le)
  then show "((w, if CHR '','' \<in> set b then Some (tl (dropWhile (\<lambda>c. c \<noteq> CHR '','') b)) else None, x1),
              w, benchmarks, s)
         \<in> measure (\<lambda>(w, benchmarks, s). case benchmarks of None \<Rightarrow> 0 | Some b \<Rightarrow> Suc (length b))"
    using \<open>benchmarks = Some b\<close> by (simp add: less_Suc_eq_le)
qed



section \<open>What a run is observed to do\<close>

text \<open>
  The notions the properties below are stated with. They describe the code's runs and
  are not part of it.
\<close>

text \<open>\<open>n\<close> rounded up to a multiple of \<open>b\<close>.\<close>

definition round_up :: "int \<Rightarrow> int \<Rightarrow> int" where
  "round_up n b = ((n + b - 1) div b) * b"

text \<open>The engine calls of one pass of each inner loop body, at index \<open>k\<close>.\<close>

definition write_entry_calls :: "int list \<Rightarrow> int list \<Rightarrow> int \<Rightarrow> int \<Rightarrow> call list" where
  "write_entry_calls keys vals value_size k =
     [Bind_int replace_stmt k (at keys k), Bind_blob replace_stmt k (at vals k) value_size,
      Step replace_stmt, Clear_bindings replace_stmt, Reset replace_stmt]"

definition read_entry_calls :: "int list \<Rightarrow> int \<Rightarrow> call list" where
  "read_entry_calls keys k =
     [Bind_int read_stmt k (at keys k), Step read_stmt, Clear_bindings read_stmt,
      Reset read_stmt]"

definition delete_entry_calls :: "int list \<Rightarrow> int \<Rightarrow> call list" where
  "delete_entry_calls keys k =
     [Bind_int delete_stmt k (at keys k), Step delete_stmt, Clear_bindings delete_stmt,
      Reset delete_stmt]"

text \<open>
  The state after one pass of a loop body whose engine calls \<open>cs\<close> all succeed and which
  counts \<open>d\<close> bytes.
\<close>

definition entry_effect :: "call list \<Rightarrow> int \<Rightarrow> bench \<Rightarrow> bench" where
  "entry_effect cs d s = finish_single_op (s\<lparr>bytes_' := bytes_' s + d, calls := calls s @ cs\<rparr>)"

text \<open>The engine calls of one chunk of \<open>n\<close> entries whose loop body makes the calls \<open>ev k\<close>.\<close>

definition begin_calls :: "world \<Rightarrow> call list" where
  "begin_calls w =
     (if FLAGS_transaction (FLAGS w) then [Step begin_trans_stmt, Reset begin_trans_stmt]
      else [])"

definition end_calls :: "world \<Rightarrow> call list" where
  "end_calls w =
     (if FLAGS_transaction (FLAGS w) then [Step end_trans_stmt, Reset end_trans_stmt]
      else [])"

definition chunk_calls :: "world \<Rightarrow> (int \<Rightarrow> call list) \<Rightarrow> int \<Rightarrow> int \<Rightarrow> call list" where
  "chunk_calls w ev n b =
     begin_calls w @ concat (map ev [0..round_up n b - 1]) @ end_calls w"

text \<open>The state after one chunk all of whose engine calls succeed.\<close>

definition chunk_effect ::
  "world \<Rightarrow> (int \<Rightarrow> call list) \<Rightarrow> int \<Rightarrow> int \<Rightarrow> int \<Rightarrow> bench \<Rightarrow> bench"
where
  "chunk_effect w ev d n b s =
     (let s1 = s\<lparr>clock := clock s + 1, calls := calls s @ begin_calls w\<rparr>;
          s2 = fold (\<lambda>k. entry_effect (ev k) d) [0..round_up n b - 1] s1;
          s3 = s2\<lparr>calls := calls s2 @ end_calls w\<rparr>
      in s3\<lparr>op_total_time_' :=
               op_total_time_' s3 + (now_micros w (clock s3) - now_micros w (clock s)),
             clock := clock s3 + 1\<rparr>)"

text \<open>The calls a run has made when it returns; none are reported otherwise.\<close>

definition calls_of :: "outcome option \<Rightarrow> call list" where
  "calls_of r = (case r of Some (Returns s) \<Rightarrow> calls s | _ \<Rightarrow> [])"

text \<open>The array indices a list of calls has read, in order.\<close>

fun array_reads :: "call list \<Rightarrow> int list" where
  "array_reads [] = []"
| "array_reads (Bind_int st k v # cs) = k # array_reads cs"
| "array_reads (Bind_blob st k v sz # cs) = k # array_reads cs"
| "array_reads (c # cs) = array_reads cs"

text \<open>
  The transactions of a list of calls: for each \<^verbatim>\<open>BEGIN\<close> ... \<^verbatim>\<open>END\<close> pair, the
  number of \<^verbatim>\<open>REPLACE\<close> executions between the two. \<open>cur\<close> is the count of the open
  transaction, if one is open.
\<close>

fun txn_sizes :: "call list \<Rightarrow> nat option \<Rightarrow> nat list" where
  "txn_sizes [] cur = []"
| "txn_sizes (c # cs) cur =
     (if c = Step begin_trans_stmt then txn_sizes cs (Some 0)
      else if c = Step end_trans_stmt
        then (case cur of Some k \<Rightarrow> k # txn_sizes cs None | None \<Rightarrow> txn_sizes cs None)
      else if c = Step replace_stmt then txn_sizes cs (map_option Suc cur)
      else txn_sizes cs cur)"

text \<open>Calls among which no transaction begins or ends and no \<^verbatim>\<open>REPLACE\<close> is executed.\<close>

definition plain :: "call list \<Rightarrow> bool" where
  "plain cs = (Step begin_trans_stmt \<notin> set cs \<and> Step end_trans_stmt \<notin> set cs
               \<and> Step replace_stmt \<notin> set cs)"

text \<open>The \<^verbatim>\<open>PRAGMA synchronous\<close> statements among a list of calls.\<close>

definition sync_pragmas :: "call list \<Rightarrow> call list" where
  "sync_pragmas cs =
     filter (\<lambda>c. c = Exec PRAGMA_synchronous_FULL \<or> c = Exec PRAGMA_synchronous_OFF) cs"

text \<open>
  The state in which the workload of a name starts: after the table was created, if
  \<open>if_create_database\<close> asked for it and the call succeeded, and \<^verbatim>\<open>start()\<close> has reset the
  counters.
\<close>

definition workload_start :: "string \<Rightarrow> bench \<Rightarrow> bench" where
  "workload_start name s =
     start ((if name \<in> set fresh_table_workloads \<and> \<not> table_created s
             then s\<lparr>table_created := True, calls := calls s @ [Exec CREATE_TABLE]\<rparr>
             else s)\<lparr>bytes_' := 0\<rparr>)"


text \<open>The workload names of the specification's table.\<close>

definition recognized :: "string list" where
  "recognized =
     [''fillseq'', ''fillseqsync'', ''fillseqbatch'', ''fillrandom'', ''fillrandsync'',
      ''fillrandbatch'', ''overwrite'', ''overwritesync'', ''overwritebatch'',
      ''fillrand100K'', ''fillseq100K'', ''readseq'', ''readrandom'', ''readrand100K'',
      ''delete'', ''deletesync'']"

text \<open>
  A world for the concrete checks: every engine call succeeds, the clock advances by
  10 microseconds per reading, the generator is a multiplicative one on 32 bits, and
  the rate text is a fixed one that fits the length found in the buffer.
\<close>

definition calm_world :: "flags \<Rightarrow> int \<Rightarrow> world" where
  "calm_world f t =
     \<lparr> FLAGS = f,
       db_ok = (\<lambda>k. True),
       now_micros = (\<lambda>k. 10 * int k),
       time0 = t,
       rand_init = (\<lambda>v. \<lparr>seed_' = v\<rparr>),
       rand_next = (\<lambda>r. (seed_' r * 16807, \<lparr>seed_' = seed_' r * 16807\<rparr>)),
       rand_gen_init = \<lparr>data_' = replicate 16 0, data_size_' = 16, pos_' = 0\<rparr>,
       rate_text = (\<lambda>b t. ''   0.0 MB/s''),
       rate_strlen = 12 \<rparr>"

section \<open>Properties of the key-space generator\<close>

lemma c_mod_pos:
  assumes "0 < num" "num < 2 ^ 31"
  shows "c_mod v num = uint v mod num"
proof -
  have w: "uint (word_of_int num :: u32) = num"
    using assms by (simp add: uint_word_of_int)
  have u: "uint (v mod (word_of_int num :: u32)) = uint v mod num"
    by (simp add: uint_mod w)
  have lo: "0 \<le> uint v mod num" using assms by simp
  have hi: "uint v mod num < 2 ^ 31"
    using assms pos_mod_bound [of num "uint v"] by linarith
  have "sint (v mod (word_of_int num :: u32)) = signed_take_bit 31 (uint v mod num)"
    by (simp add: sint_uint u)
  also have "\<dots> = uint v mod num"
    using lo hi by (simp add: signed_take_bit_int_eq_self)
  finally show ?thesis by (simp add: c_mod_def)
qed

lemma gen_key_seq_eq:
  "0 \<le> i \<Longrightarrow> i \<le> num \<Longrightarrow> length keys = nat num \<Longrightarrow>
   gen_key_seq keys i num = take (nat i) keys @ map int [nat i..<nat num]"
proof (induction keys i num rule: gen_key_seq.induct)
  case (1 keys i num)
  show ?case
  proof (cases "i < num")
    case False
    with "1.prems" have "i = num" by simp
    with "1.prems" show ?thesis by simp
  next
    case True
    let ?ks = "keys[nat i := i]"
    have lt: "nat i < length keys" using True "1.prems" by simp
    have ih: "gen_key_seq ?ks (i + 1) num =
        take (nat (i + 1)) ?ks @ map int [nat (i + 1)..<nat num]"
      using "1.IH" [OF True] True "1.prems" by simp
    have n1: "nat (i + 1) = Suc (nat i)" using "1.prems" by simp
    have tk: "take (Suc (nat i)) ?ks = take (nat i) keys @ [i]"
      using lt by (simp add: take_Suc_conv_app_nth)
    have up: "[nat i..<nat num] = nat i # [Suc (nat i)..<nat num]"
      using True "1.prems" by (simp add: upt_conv_Cons)
    have "gen_key_seq keys i num = gen_key_seq ?ks (i + 1) num"
      using True by simp
    then show ?thesis
      using ih n1 tk up "1.prems" by simp
  qed
qed

lemma gen_key_rand_eq:
  "0 \<le> i \<Longrightarrow> i \<le> num \<Longrightarrow> length keys = nat num \<Longrightarrow>
   gen_key_rand rn keys i num r =
     (take (nat i) keys @ map (\<lambda>v. c_mod v num) (rand_draws rn (nat (num - i)) r),
      rand_after rn (nat (num - i)) r)"
proof (induction rn keys i num r rule: gen_key_rand.induct)
  case (1 rn keys i num r)
  show ?case
  proof (cases "i < num")
    case False
    with "1.prems" have "i = num" by simp
    with "1.prems" show ?thesis by simp
  next
    case True
    obtain v r' where rn: "rn r = (v, r')" by (cases "rn r")
    let ?ks = "keys[nat i := c_mod v num]"
    have lt: "nat i < length keys" using True "1.prems" by simp
    have ih: "gen_key_rand rn ?ks (i + 1) num r' =
        (take (nat (i + 1)) ?ks @ map (\<lambda>v. c_mod v num) (rand_draws rn (nat (num - (i + 1))) r'),
         rand_after rn (nat (num - (i + 1))) r')"
      using "1.IH" [OF True rn [symmetric]] True "1.prems" by simp
    have n1: "nat (i + 1) = Suc (nat i)" using "1.prems" by simp
    have n2: "nat (num - i) = Suc (nat (num - (i + 1)))" using True by simp
    have tk: "take (Suc (nat i)) ?ks = take (nat i) keys @ [c_mod v num]"
      using lt by (simp add: take_Suc_conv_app_nth)
    have "gen_key_rand rn keys i num r = gen_key_rand rn ?ks (i + 1) num r'"
      using True rn by simp
    then show ?thesis
      using ih n1 tk rn by (simp add: n2 del: gen_key_rand.simps)
  qed
qed

lemma rand_draws_length: "length (rand_draws rn k r) = k"
  by (induction k arbitrary: r) simp_all

lemma gen_key_sequential:
  assumes "0 \<le> count" and "length keys = nat count"
  shows "gen_key rn keys count SEQUENTIAL r = (map int [0..<nat count], r)"
  using assms gen_key_seq_eq [of 0 count keys] by (simp add: gen_key_def)

lemma gen_key_random:
  assumes "0 \<le> count" and "count < 2 ^ 31" and "length keys = nat count"
  shows "gen_key rn keys count RANDOM r =
     (map (\<lambda>v. uint v mod count) (rand_draws rn (nat count) r), rand_after rn (nat count) r)"
proof -
  have rnd0: "gen_key rn keys count RANDOM r =
      (map (\<lambda>v. c_mod v count) (rand_draws rn (nat count) r), rand_after rn (nat count) r)"
    using assms gen_key_rand_eq [of 0 count keys rn r] by (simp add: gen_key_def)
  show ?thesis
  proof (cases "count = 0")
    case True
    with rnd0 show ?thesis by simp
  next
    case False
    with assms have "0 < count" by simp
    then have "\<And>v. c_mod v count = uint v mod count"
      using assms(2) by (rule c_mod_pos)
    with rnd0 show ?thesis by simp
  qed
qed

text \<open>
  Claim C3. For every count from 0 up to the largest C \<^verbatim>\<open>int\<close>, and whatever the array
  held before: in sequential order \<^verbatim>\<open>gen_key\<close> leaves exactly the keys
  \<open>0, 1, ..., count - 1\<close> in the array, in that order, and does not touch the generator;
  in random order it leaves \<open>count\<close> keys, the \<open>i\<close>-th being the \<open>i\<close>-th value drawn from
  the generator modulo \<open>count\<close>, so each lies in \<open>[0, count)\<close>. Nothing makes the draws
  distinct: duplicates are possible.
\<close>

theorem gen_key_orders:
  assumes "0 \<le> count" and "count < 2 ^ 31" and "length keys = nat count"
  shows "gen_key rn keys count SEQUENTIAL r = (map int [0..<nat count], r)
       \<and> gen_key rn keys count RANDOM r =
           (map (\<lambda>v. uint v mod count) (rand_draws rn (nat count) r),
            rand_after rn (nat count) r)
       \<and> length (fst (gen_key rn keys count RANDOM r)) = nat count
       \<and> (\<forall>k \<in> set (fst (gen_key rn keys count RANDOM r)). 0 \<le> k \<and> k < count)"
proof -
  note seq = gen_key_sequential [OF assms(1) assms(3), of rn r]
  note rnd = gen_key_random [OF assms, of rn r]
  have rng: "\<forall>k \<in> set (fst (gen_key rn keys count RANDOM r)). 0 \<le> k \<and> k < count"
  proof
    fix k assume "k \<in> set (fst (gen_key rn keys count RANDOM r))"
    then obtain v where k: "k = uint v mod count" and "v \<in> set (rand_draws rn (nat count) r)"
      using rnd by auto
    then have "rand_draws rn (nat count) r \<noteq> []" by auto
    then have "0 < count" using assms(1) by (cases "count = 0") auto
    then show "0 \<le> k \<and> k < count" using k by simp
  qed
  show ?thesis using seq rnd rng by (simp add: rand_draws_length)
qed

theorem gen_key_orders_witness:
  "(0::int) \<le> 5 \<and> (5::int) < 2 ^ 31 \<and> length [9, 9, 9, 9, 9 :: int] = nat 5
   \<and> gen_key (\<lambda>r. (seed_' r + 3, r\<lparr>seed_' := seed_' r + 3\<rparr>)) [9, 9, 9, 9, 9] 5 SEQUENTIAL
         \<lparr>seed_' = 1\<rparr> = ([0, 1, 2, 3, 4], \<lparr>seed_' = 1\<rparr>)
   \<and> gen_key (\<lambda>r. (seed_' r + 3, r\<lparr>seed_' := seed_' r + 3\<rparr>)) [9, 9, 9, 9, 9] 5 RANDOM
         \<lparr>seed_' = 1\<rparr> = ([4, 2, 0, 3, 1], \<lparr>seed_' = 16\<rparr>)"
proof -
  let ?rn = "\<lambda>r. (seed_' r + 3, r\<lparr>seed_' := seed_' r + 3\<rparr>)"
  let ?r = "\<lparr>seed_' = 1\<rparr>"
  have h1: "(0::int) \<le> 5" and h2: "(5::int) < 2 ^ 31"
    and h3: "length [9, 9, 9, 9, 9 :: int] = nat 5" by simp_all
  have d: "rand_draws ?rn (nat 5) ?r = [4, 7, 10, 13, 16]"
    by (simp add: eval_nat_numeral)
  have a: "rand_after ?rn (nat 5) ?r = \<lparr>seed_' = 16\<rparr>"
    by (simp add: eval_nat_numeral)
  have u: "[0..<nat 5] = [0, 1, 2, 3, 4]"
    by (simp add: upt_conv_Cons)
  note t = gen_key_orders [OF h1 h2 h3, of ?rn ?r, unfolded d a u]
  show ?thesis using t h1 h2 h3 by simp
qed
section \<open>The value generator\<close>

text \<open>
  Claim C8. For a generator whose cursor lies within its pool and every \<open>len\<close> from 0
  up to, but not including, the pool size: \<open>generate(len)\<close> returns exactly \<open>len\<close>
  contiguous bytes of the pool, the bytes at offsets \<open>p, ..., p + len - 1\<close> with
  \<open>p + len\<close> within the pool; \<open>p\<close> is the cursor, or 0 when the request would exceed
  the pool from the cursor; the cursor ends at \<open>p + len\<close>, within the pool again, and
  the pool is unchanged.
\<close>

theorem rand_gen_generate_in_pool:
  assumes "0 \<le> len" and "len < int (data_size_' g)"
    and "length (data_' g) = data_size_' g"
    and "0 \<le> pos_' g" and "pos_' g \<le> int (data_size_' g)"
  shows "(case rand_gen_generate g len of (p, g') \<Rightarrow>
           length (view g p len) = nat len
         \<and> (\<forall>k < nat len. view g p len ! k = data_' g ! (nat p + k))
         \<and> 0 \<le> p \<and> p + len \<le> int (data_size_' g)
         \<and> p = (if pos_' g + len > int (data_size_' g) then 0 else pos_' g)
         \<and> pos_' g' = p + len
         \<and> 0 \<le> pos_' g' \<and> pos_' g' \<le> int (data_size_' g')
         \<and> data_' g' = data_' g \<and> data_size_' g' = data_size_' g)"
  using assms by (auto simp: rand_gen_generate_def view_def Let_def)

theorem rand_gen_generate_in_pool_witness:
  "(0::int) \<le> 3 \<and> (3::int) < int (data_size_' \<lparr>data_' = [1, 2, 3, 4, 5], data_size_' = 5, pos_' = 3\<rparr>)
   \<and> rand_gen_generate \<lparr>data_' = [1, 2, 3, 4, 5], data_size_' = 5, pos_' = 3\<rparr> 3
       = (0, \<lparr>data_' = [1, 2, 3, 4, 5], data_size_' = 5, pos_' = 3\<rparr>)
   \<and> view \<lparr>data_' = [1, 2, 3, 4, 5], data_size_' = 5, pos_' = 3\<rparr> 0 3 = [1, 2, 3]
   \<and> rand_gen_generate \<lparr>data_' = [1, 2, 3, 4, 5], data_size_' = 5, pos_' = 1\<rparr> 3
       = (1, \<lparr>data_' = [1, 2, 3, 4, 5], data_size_' = 5, pos_' = 4\<rparr>)
   \<and> view \<lparr>data_' = [1, 2, 3, 4, 5], data_size_' = 5, pos_' = 1\<rparr> 1 3 = [2, 3, 4]"
  using rand_gen_generate_in_pool [of 3 "\<lparr>data_' = [1, 2, 3, 4, 5], data_size_' = 5, pos_' = 3\<rparr>"]
    rand_gen_generate_in_pool [of 3 "\<lparr>data_' = [1, 2, 3, 4, 5], data_size_' = 5, pos_' = 1\<rparr>"]
  by (simp add: rand_gen_generate_def view_def)

section \<open>Configuration resolution\<close>

text \<open>
  Claim C6, as stated, fails: \<^verbatim>\<open>--num=-5\<close> is accepted by \<^verbatim>\<open>main\<close>, and
  \<^verbatim>\<open>benchmark_init\<close> then leaves both the entry count and the read count at -5.
\<close>

theorem benchmark_init_negative:
  "(case main_flags [Arg_num (- 5)] of
      Inl c \<Rightarrow> False
    | Inr f \<Rightarrow> num_' (benchmark_init (calm_world f 1)) = - 5
             \<and> reads_' (benchmark_init (calm_world f 1)) = - 5)"
  by (simp add: main_flags_def init_def benchmark_init_def calm_world_def)

text \<open>
  Claim C6, amended. After \<^verbatim>\<open>benchmark_init\<close> the entry count is the value of
  \<^verbatim>\<open>--num\<close>, and the read count is the value of \<^verbatim>\<open>--reads\<close> when that is not
  negative and the entry count otherwise; so the two are non-negative exactly when
  the value of \<^verbatim>\<open>--num\<close> is.
\<close>

theorem benchmark_init_counts:
  "num_' (benchmark_init w) = FLAGS_num (FLAGS w)
   \<and> reads_' (benchmark_init w) =
       (if FLAGS_reads (FLAGS w) < 0 then FLAGS_num (FLAGS w) else FLAGS_reads (FLAGS w))
   \<and> (FLAGS_reads (FLAGS w) < 0 \<longrightarrow> reads_' (benchmark_init w) = num_' (benchmark_init w))
   \<and> ((0 \<le> num_' (benchmark_init w) \<and> 0 \<le> reads_' (benchmark_init w))
        = (0 \<le> FLAGS_num (FLAGS w)))"
  by (auto simp: benchmark_init_def)

theorem benchmark_init_counts_witness:
  "(case main_flags [Arg_num 7, Arg_reads (- 3)] of
      Inl c \<Rightarrow> False
    | Inr f \<Rightarrow> FLAGS_reads (FLAGS (calm_world f 1)) < 0
             \<and> num_' (benchmark_init (calm_world f 1)) = 7
             \<and> reads_' (benchmark_init (calm_world f 1)) = 7)"
proof -
  obtain f where f: "main_flags [Arg_num 7, Arg_reads (- 3)] = Inr f"
    and n: "FLAGS_num f = 7" and r: "FLAGS_reads f = - 3"
    by (simp add: main_flags_def init_def)
  have w: "FLAGS (calm_world f 1) = f" by (simp add: calm_world_def)
  show ?thesis
    using benchmark_init_counts [of "calm_world f 1"] by (simp add: f w n r)
qed

section \<open>Runs in which every engine call succeeds\<close>

declare for_j.simps [simp del] chunks.simps [simp del] run_benchmarks.simps [simp del]
  gen_value_loop.simps [simp del] dec_nat.simps [simp del]
  gen_key_seq.simps [simp del] gen_key_rand.simps [simp del]

lemma db_call_ok:
  "\<forall>k. db_ok w k \<Longrightarrow> db_call w e c s = Some (Returns (s\<lparr>calls := calls s @ [c]\<rparr>))"
  by (simp add: db_call_def)

lemma write_entry_ok:
  assumes "\<forall>k. db_ok w k"
  shows "write_entry w keys vals vs k s =
     Some (Returns (entry_effect (write_entry_calls keys vals vs k) (vs + 4) s))"
  by (simp add: write_entry_def thn_def ret_def db_call_ok [OF assms] entry_effect_def
      write_entry_calls_def)

lemma read_entry_ok:
  assumes "\<forall>k. db_ok w k"
  shows "read_entry w keys k s = Some (Returns (entry_effect (read_entry_calls keys k) 0 s))"
  by (simp add: read_entry_def thn_def ret_def db_call_ok [OF assms] entry_effect_def
      read_entry_calls_def)

lemma delete_entry_ok:
  assumes "\<forall>k. db_ok w k"
  shows "delete_entry w keys k s = Some (Returns (entry_effect (delete_entry_calls keys k) 0 s))"
  by (simp add: delete_entry_def thn_def ret_def db_call_ok [OF assms] entry_effect_def
      delete_entry_calls_def)

lemma begin_transaction_ok:
  assumes "\<forall>k. db_ok w k"
  shows "begin_transaction w s = Some (Returns (s\<lparr>calls := calls s @ begin_calls w\<rparr>))"
  by (simp add: begin_transaction_def begin_calls_def thn_def ret_def db_call_ok [OF assms])

lemma end_transaction_ok:
  assumes "\<forall>k. db_ok w k"
  shows "end_transaction w s = Some (Returns (s\<lparr>calls := calls s @ end_calls w\<rparr>))"
  by (simp add: end_transaction_def end_calls_def thn_def ret_def db_call_ok [OF assms])

subsection \<open>The inner loops are folds over the indices they visit\<close>

lemma for_j_fold:
  assumes body: "\<And>k s. body k s = Some (Returns (F k s))"
  shows "for_j body i j b s = Some (Returns (fold F [i + j..i + b - 1] s))"
proof (induction "nat (b - j)" arbitrary: j s)
  case 0
  then have "\<not> j < b" by simp
  then show ?case by (subst for_j.simps) simp
next
  case (Suc m)
  then have lt: "j < b" and m: "m = nat (b - (j + 1))" by simp_all
  have "for_j body i j b s = for_j body i (j + 1) b (F (i + j) s)"
    using lt by (subst for_j.simps) (simp add: body)
  also have "\<dots> = Some (Returns (fold F [i + (j + 1)..i + b - 1] (F (i + j) s)))"
    by (rule Suc.hyps(1) [OF m])
  also have "fold F [i + (j + 1)..i + b - 1] (F (i + j) s) = fold F [i + j..i + b - 1] s"
  proof -
    have "[i + j..i + b - 1] = (i + j) # [i + (j + 1)..i + b - 1]"
      using lt upto_rec1 [of "i + j" "i + b - 1"] by (simp add: add.assoc)
    then show ?thesis by simp
  qed
  finally show ?case .
qed

lemma round_up_step: "0 < b \<Longrightarrow> round_up m b = b + round_up (m - b) b"
proof -
  assume b: "0 < b"
  have "(m + b - 1) div b = (m - b + b - 1) div b + 1"
    using b div_add_self2 [of b "m - 1"] by (simp add: algebra_simps)
  then show ?thesis by (simp add: round_up_def algebra_simps)
qed

lemma round_up_nonpos: "0 < b \<Longrightarrow> m \<le> 0 \<Longrightarrow> round_up m b \<le> 0"
proof -
  assume b: "0 < b" and m: "m \<le> 0"
  have "(m + b - 1) div b \<le> (b - 1) div b"
    using b m by (intro zdiv_mono1) simp_all
  also have "(b - 1) div b = 0"
    using b by (simp add: div_pos_pos_trivial)
  finally have "(m + b - 1) div b \<le> 0" .
  then show ?thesis using b by (simp add: round_up_def mult_le_0_iff)
qed

lemma round_up_nonneg: "0 < b \<Longrightarrow> - b < m \<Longrightarrow> 0 \<le> round_up m b"
proof -
  assume b: "0 < b" and m: "- b < m"
  have "0 \<le> (m + b - 1) div b"
    using b m by (simp add: pos_imp_zdiv_nonneg_iff)
  then show ?thesis using b by (simp add: round_up_def)
qed

lemma for_i_fold:
  assumes body: "\<And>k s. body k s = Some (Returns (F k s))" and b: "0 < b"
  shows "for_i body i n b s = Some (Returns (fold F [i..i + round_up (n - i) b - 1] s))"
proof (induction "nat (n - i)" arbitrary: i s rule: less_induct)
  case less
  show ?case
  proof (cases "i < n")
    case False
    then have "round_up (n - i) b \<le> 0" using b by (simp add: round_up_nonpos)
    then have "[i..i + round_up (n - i) b - 1] = []" by simp
    then show ?thesis using False by (subst for_i.simps) simp
  next
    case True
    have m: "nat (n - (i + b)) < nat (n - i)" using True b by simp
    have ru: "round_up (n - i) b = b + round_up (n - (i + b)) b"
      using round_up_step [OF b, of "n - i"] by (simp add: algebra_simps)
    have ge: "0 \<le> round_up (n - (i + b)) b"
      using True b by (intro round_up_nonneg) simp_all
    have "for_i body i n b s = for_i body (i + b) n b (fold F [i + 0..i + b - 1] s)"
      using True by (subst for_i.simps) (simp add: for_j_fold [of body F, OF body])
    also have "\<dots> = Some (Returns (fold F [i + b..i + b + round_up (n - (i + b)) b - 1]
        (fold F [i + 0..i + b - 1] s)))"
      by (rule less.hyps [OF m])
    also have "fold F [i + b..i + b + round_up (n - (i + b)) b - 1] (fold F [i + 0..i + b - 1] s)
        = fold F ([i..i + b - 1] @ [i + b..i + b + round_up (n - (i + b)) b - 1]) s"
      by simp
    also have "[i..i + b - 1] @ [i + b..i + b + round_up (n - (i + b)) b - 1]
        = [i..i + round_up (n - i) b - 1]"
      using b ge upto_split2 [of i "i + b - 1" "i + round_up (n - i) b - 1"]
      by (simp add: ru algebra_simps)
    finally show ?thesis .
  qed
qed

subsection \<open>One chunk, and the chunk loop\<close>

lemma timed_batches_ok:
  assumes ok: "\<forall>k. db_ok w k"
    and body: "\<And>k s. body k s = Some (Returns (entry_effect (ev k) d s))"
    and b: "0 < b"
  shows "timed_batches w body n b s = Some (Returns (chunk_effect w ev d n b s))"
  by (simp add: timed_batches_def chunk_effect_def Let_def thn_def ret_def
      begin_transaction_ok [OF ok] end_transaction_ok [OF ok]
      for_i_fold [of body "\<lambda>k. entry_effect (ev k) d", OF body b])

lemma chunks_single:
  assumes "n \<le> MAXNUMPERTIME"
  shows "chunks body n s = (if 0 < n then body n s else Some (Returns s))"
proof (cases "0 < n")
  case False
  then show ?thesis by (subst chunks.simps) simp
next
  case True
  have stop: "\<And>s'. chunks body (n - MAXNUMPERTIME) s' = Some (Returns s')"
    using assms by (subst chunks.simps) simp
  show ?thesis
    using True by (subst chunks.simps) (simp add: stop split: option.split outcome.split)
qed

lemma finish_single_op_calls [simp]: "calls (finish_single_op s) = calls s"
  by (simp add: finish_single_op_def Let_def)

lemma entry_effect_calls [simp]: "calls (entry_effect cs d s) = calls s @ cs"
  by (simp add: entry_effect_def)

lemma fold_entry_effect_calls:
  "calls (fold (\<lambda>k. entry_effect (ev k) d) ks s) = calls s @ concat (map ev ks)"
  by (induction ks arbitrary: s) simp_all

lemma chunk_effect_calls: "calls (chunk_effect w ev d n b s) = calls s @ chunk_calls w ev n b"
  by (simp add: chunk_effect_def chunk_calls_def Let_def fold_entry_effect_calls)

lemma finish_single_op_fields [simp]:
  "num_' (finish_single_op s) = num_' s"
  "reads_' (finish_single_op s) = reads_' s"
  "bytes_' (finish_single_op s) = bytes_' s"
  "message_' (finish_single_op s) = message_' s"
  "op_total_time_' (finish_single_op s) = op_total_time_' s"
  "clock (finish_single_op s) = clock s"
  "table_created (finish_single_op s) = table_created s"
  by (simp_all add: finish_single_op_def Let_def)

lemma entry_effect_fields [simp]:
  "num_' (entry_effect cs d s) = num_' s"
  "reads_' (entry_effect cs d s) = reads_' s"
  "bytes_' (entry_effect cs d s) = bytes_' s + d"
  "message_' (entry_effect cs d s) = message_' s"
  "op_total_time_' (entry_effect cs d s) = op_total_time_' s"
  "clock (entry_effect cs d s) = clock s"
  "table_created (entry_effect cs d s) = table_created s"
  by (simp_all add: entry_effect_def)

lemma fold_entry_effect_fields:
  "num_' (fold (\<lambda>k. entry_effect (ev k) d) ks s) = num_' s"
  "reads_' (fold (\<lambda>k. entry_effect (ev k) d) ks s) = reads_' s"
  "bytes_' (fold (\<lambda>k. entry_effect (ev k) d) ks s) = bytes_' s + d * int (length ks)"
  "message_' (fold (\<lambda>k. entry_effect (ev k) d) ks s) = message_' s"
  "op_total_time_' (fold (\<lambda>k. entry_effect (ev k) d) ks s) = op_total_time_' s"
  "clock (fold (\<lambda>k. entry_effect (ev k) d) ks s) = clock s"
  "table_created (fold (\<lambda>k. entry_effect (ev k) d) ks s) = table_created s"
  by (induction ks arbitrary: s, simp_all add: algebra_simps)+

lemma chunk_effect_fields:
  "num_' (chunk_effect w ev d n b s) = num_' s"
  "reads_' (chunk_effect w ev d n b s) = reads_' s"
  "bytes_' (chunk_effect w ev d n b s) = bytes_' s + d * int (length [0..round_up n b - 1])"
  "message_' (chunk_effect w ev d n b s) = message_' s"
  "op_total_time_' (chunk_effect w ev d n b s) =
     op_total_time_' s + (now_micros w (clock s + 1) - now_micros w (clock s))"
  "clock (chunk_effect w ev d n b s) = clock s + 2"
  "table_created (chunk_effect w ev d n b s) = table_created s"
  by (simp_all add: chunk_effect_def Let_def fold_entry_effect_fields)

lemma gen_key_seq_length: "length (gen_key_seq keys i num) = length keys"
  by (induction keys i num rule: gen_key_seq.induct) (subst gen_key_seq.simps, simp)

lemma gen_key_rand_length: "length (fst (gen_key_rand rn keys i num r)) = length keys"
  by (induction rn keys i num r rule: gen_key_rand.induct)
    (subst gen_key_rand.simps, simp split: prod.split)

lemma gen_key_length: "length (fst (gen_key rn keys num order r)) = length keys"
  by (simp add: gen_key_def gen_key_seq_length gen_key_rand_length)

lemma gen_value_loop_length: "length (fst (gen_value_loop vals i num vs g)) = length vals"
  by (induction vals i num vs g rule: gen_value_loop.induct)
    (subst gen_value_loop.simps, simp split: prod.split)

lemma gen_value_length: "length (fst (gen_value vals num vs g)) = length vals"
  by (simp add: gen_value_def gen_value_loop_length)

lemma write_chunk_ok:
  assumes ok: "\<forall>k. db_ok w k" and b: "0 < b"
  shows "\<exists>keys vals r g. length keys = nat n \<and> length vals = nat n \<and>
     write_chunk w order vs b n s =
     Some (Returns (chunk_effect w (write_entry_calls keys vals vs) (vs + 4) n b
        (s\<lparr>rand_' := r, gen_' := g\<rparr>)))"
proof -
  obtain keys r where k: "gen_key (rand_next w) (replicate (nat n) 0) n order (rand_' s) = (keys, r)"
    by (cases "gen_key (rand_next w) (replicate (nat n) 0) n order (rand_' s)")
  obtain vals g where v: "gen_value (replicate (nat n) 0) n vs (gen_' s) = (vals, g)"
    by (cases "gen_value (replicate (nat n) 0) n vs (gen_' s)")
  have "write_chunk w order vs b n s =
     Some (Returns (chunk_effect w (write_entry_calls keys vals vs) (vs + 4) n b
        (s\<lparr>rand_' := r, gen_' := g\<rparr>)))"
    by (simp add: write_chunk_def k v
        timed_batches_ok [OF ok write_entry_ok [OF ok] b])
  moreover have "length keys = nat n"
    using gen_key_length [of "rand_next w" "replicate (nat n) 0" n order "rand_' s"]
    by (simp add: k)
  moreover have "length vals = nat n"
    using gen_value_length [of "replicate (nat n) 0" n vs "gen_' s"] by (simp add: v)
  ultimately show ?thesis by blast
qed

lemma read_chunk_ok:
  assumes ok: "\<forall>k. db_ok w k" and b: "0 < b"
  shows "\<exists>keys r. length keys = nat n \<and> read_chunk w order b n s =
     Some (Returns (chunk_effect w (read_entry_calls keys) 0 n b (s\<lparr>rand_' := r\<rparr>)))"
proof -
  obtain keys r where k: "gen_key (rand_next w) (replicate (nat n) 0) n order (rand_' s) = (keys, r)"
    by (cases "gen_key (rand_next w) (replicate (nat n) 0) n order (rand_' s)")
  have "read_chunk w order b n s =
     Some (Returns (chunk_effect w (read_entry_calls keys) 0 n b (s\<lparr>rand_' := r\<rparr>)))"
    by (simp add: read_chunk_def k timed_batches_ok [OF ok read_entry_ok [OF ok] b])
  moreover have "length keys = nat n"
    using gen_key_length [of "rand_next w" "replicate (nat n) 0" n order "rand_' s"]
    by (simp add: k)
  ultimately show ?thesis by blast
qed

lemma delete_chunk_ok:
  assumes ok: "\<forall>k. db_ok w k" and b: "0 < b"
  shows "\<exists>keys r. length keys = nat n \<and> delete_chunk w order b n s =
     Some (Returns (chunk_effect w (delete_entry_calls keys) 0 n b (s\<lparr>rand_' := r\<rparr>)))"
proof -
  obtain keys r where k: "gen_key (rand_next w) (replicate (nat n) 0) n order (rand_' s) = (keys, r)"
    by (cases "gen_key (rand_next w) (replicate (nat n) 0) n order (rand_' s)")
  have "delete_chunk w order b n s =
     Some (Returns (chunk_effect w (delete_entry_calls keys) 0 n b (s\<lparr>rand_' := r\<rparr>)))"
    by (simp add: delete_chunk_def k timed_batches_ok [OF ok delete_entry_ok [OF ok] b])
  moreover have "length keys = nat n"
    using gen_key_length [of "rand_next w" "replicate (nat n) 0" n order "rand_' s"]
    by (simp add: k)
  ultimately show ?thesis by blast
qed

text \<open>
  \<^verbatim>\<open>benchmark_write\<close> when every engine call succeeds: it returns, and between its
  prepare and finalize calls lie the calls of a single chunk of
  \<open>min num_entries MAXNUMPERTIME\<close> entries, or none when \<open>num_entries\<close> is not positive.
\<close>

lemma benchmark_write_ok:
  fixes ne n :: int
  assumes ok: "\<forall>k. db_ok w k" and b: "0 < b"
  defines "n \<equiv> (if ne > MAXNUMPERTIME then MAXNUMPERTIME else ne)"
  shows "\<exists>s' keys vals. benchmark_write w ws order ne vs b s = Some (Returns s')
     \<and> calls s' = calls s @
          [Exec (if ws then PRAGMA_synchronous_FULL else PRAGMA_synchronous_OFF),
           Prepare replace_stmt REPLACE_INTO, Prepare begin_trans_stmt BEGIN_TRANSACTION,
           Prepare end_trans_stmt END_TRANSACTION] @
          (if 0 < n then chunk_calls w (write_entry_calls keys vals vs) n b else []) @
          [Finalize replace_stmt, Finalize begin_trans_stmt, Finalize end_trans_stmt]
     \<and> num_' s' = num_' s \<and> reads_' s' = reads_' s \<and> table_created s' = table_created s
     \<and> bytes_' s' = bytes_' s + (if 0 < n then (vs + 4) * int (length [0..round_up n b - 1]) else 0)
     \<and> message_' s' = (if ne \<noteq> num_' s then Some (take 99 (''('' @ dec ne @ '' ops)''))
                       else message_' s)
     \<and> op_total_time_' s' = op_total_time_' s +
          (if 0 < n then now_micros w (clock s + 1) - now_micros w (clock s) else 0)"
proof -
  have le: "n \<le> MAXNUMPERTIME" by (simp add: n_def)
  define s0 where "s0 = (if ne \<noteq> num_' s
      then s\<lparr>message_' := Some (take 99 (''('' @ dec ne @ '' ops)''))\<rparr> else s)"
  define s1 where "s1 = s0\<lparr>calls := calls s0 @
          [Exec (if ws then PRAGMA_synchronous_FULL else PRAGMA_synchronous_OFF),
           Prepare replace_stmt REPLACE_INTO, Prepare begin_trans_stmt BEGIN_TRANSACTION,
           Prepare end_trans_stmt END_TRANSACTION]\<rparr>"
  obtain keys vals r g where "length keys = nat n" and ch: "write_chunk w order vs b n s1 =
     Some (Returns (chunk_effect w (write_entry_calls keys vals vs) (vs + 4) n b
        (s1\<lparr>rand_' := r, gen_' := g\<rparr>)))"
    using write_chunk_ok [OF ok b] by blast
  define s2 where "s2 = (if 0 < n
      then chunk_effect w (write_entry_calls keys vals vs) (vs + 4) n b (s1\<lparr>rand_' := r, gen_' := g\<rparr>)
      else s1)"
  have c: "chunks (write_chunk w order vs b) n s1 = Some (Returns s2)"
    by (simp add: chunks_single [OF le] ch s2_def)
  define s3 where "s3 = s2\<lparr>calls := calls s2 @
          [Finalize replace_stmt, Finalize begin_trans_stmt, Finalize end_trans_stmt]\<rparr>"
  have "benchmark_write w ws order ne vs b s = Some (Returns s3)"
    using c
    by (simp add: benchmark_write_def thn_def ret_def db_call_ok [OF ok] s1_def s0_def n_def
        s3_def split del: if_split)
  moreover have "calls s2 = calls s1 @
      (if 0 < n then chunk_calls w (write_entry_calls keys vals vs) n b else [])"
    by (simp add: s2_def chunk_effect_calls)
  moreover have "calls s1 = calls s @
          [Exec (if ws then PRAGMA_synchronous_FULL else PRAGMA_synchronous_OFF),
           Prepare replace_stmt REPLACE_INTO, Prepare begin_trans_stmt BEGIN_TRANSACTION,
           Prepare end_trans_stmt END_TRANSACTION]"
    by (simp add: s1_def s0_def)
  moreover have "num_' s2 = num_' s" "reads_' s2 = reads_' s" "table_created s2 = table_created s"
    "bytes_' s2 = bytes_' s + (if 0 < n then (vs + 4) * int (length [0..round_up n b - 1]) else 0)"
    "message_' s2 = (if ne \<noteq> num_' s then Some (take 99 (''('' @ dec ne @ '' ops)''))
                       else message_' s)"
    "op_total_time_' s2 = op_total_time_' s +
          (if 0 < n then now_micros w (clock s + 1) - now_micros w (clock s) else 0)"
    by (simp_all add: s2_def s1_def s0_def chunk_effect_fields)
  ultimately show ?thesis
    by (intro exI [of _ s3] exI [of _ keys] exI [of _ vals]) (simp add: s3_def del: length_upto)
qed

lemma benchmark_read_ok:
  fixes n :: int and s :: bench
  assumes ok: "\<forall>k. db_ok w k" and b: "0 < b"
  defines "n \<equiv> (if reads_' s > MAXNUMPERTIME then MAXNUMPERTIME else reads_' s)"
  shows "\<exists>s' keys. benchmark_read w order b s = Some (Returns s')
     \<and> calls s' = calls s @
          [Prepare begin_trans_stmt BEGIN_TRANSACTION, Prepare end_trans_stmt END_TRANSACTION,
           Prepare read_stmt SELECT_FROM] @
          (if 0 < n then chunk_calls w (read_entry_calls keys) n b else []) @
          [Finalize read_stmt, Finalize begin_trans_stmt, Finalize end_trans_stmt]
     \<and> num_' s' = num_' s \<and> reads_' s' = reads_' s
     \<and> op_total_time_' s' = op_total_time_' s +
          (if 0 < n then now_micros w (clock s + 1) - now_micros w (clock s) else 0)"
proof -
  have le: "n \<le> MAXNUMPERTIME" by (simp add: n_def)
  define s1 where "s1 = s\<lparr>calls := calls s @
          [Prepare begin_trans_stmt BEGIN_TRANSACTION, Prepare end_trans_stmt END_TRANSACTION,
           Prepare read_stmt SELECT_FROM]\<rparr>"
  obtain keys r where ch: "read_chunk w order b n s1 =
     Some (Returns (chunk_effect w (read_entry_calls keys) 0 n b (s1\<lparr>rand_' := r\<rparr>)))"
    using read_chunk_ok [OF ok b] by blast
  define s2 where "s2 = (if 0 < n
      then chunk_effect w (read_entry_calls keys) 0 n b (s1\<lparr>rand_' := r\<rparr>) else s1)"
  have rs: "reads_' s1 = reads_' s" by (simp add: s1_def)
  have c: "chunks (read_chunk w order b) n s1 = Some (Returns s2)"
    by (simp add: chunks_single [OF le] ch s2_def)
  define s3 where "s3 = s2\<lparr>calls := calls s2 @
          [Finalize read_stmt, Finalize begin_trans_stmt, Finalize end_trans_stmt]\<rparr>"
  have "benchmark_read w order b s = Some (Returns s3)"
    using c
    by (simp add: benchmark_read_def thn_def ret_def db_call_ok [OF ok] s1_def s3_def n_def
        split del: if_split cong: if_cong)
  moreover have "calls s2 = calls s1 @
      (if 0 < n then chunk_calls w (read_entry_calls keys) n b else [])"
    by (simp add: s2_def chunk_effect_calls)
  moreover have "calls s1 = calls s @
          [Prepare begin_trans_stmt BEGIN_TRANSACTION, Prepare end_trans_stmt END_TRANSACTION,
           Prepare read_stmt SELECT_FROM]"
    by (simp add: s1_def)
  moreover have "num_' s2 = num_' s" "reads_' s2 = reads_' s"
    "op_total_time_' s2 = op_total_time_' s +
          (if 0 < n then now_micros w (clock s + 1) - now_micros w (clock s) else 0)"
    by (simp_all add: s2_def s1_def chunk_effect_fields)
  ultimately show ?thesis
    by (intro exI [of _ s3] exI [of _ keys]) (simp add: s3_def)
qed

subsection \<open>Rounding up to a multiple of the batch size\<close>

lemma round_up_ge:
  assumes "0 < b"
  shows "n \<le> round_up n b"
proof -
  have "(n + b - 1) mod b < b" using assms by simp
  moreover have "round_up n b = (n + b - 1) - (n + b - 1) mod b"
    by (simp add: round_up_def minus_mod_eq_div_mult)
  ultimately show ?thesis by simp
qed

lemma round_up_dvd:
  assumes "0 < b"
  shows "(round_up n b = n) = (b dvd n)"
proof
  assume "round_up n b = n"
  then have "n = ((n + b - 1) div b) * b" by (simp add: round_up_def)
  then show "b dvd n" by (metis dvd_triv_right)
next
  assume "b dvd n"
  then obtain k where k: "n = b * k" by (auto simp: dvd_def)
  have "(b * k + (b - 1)) div b = k + (b - 1) div b"
    using assms by simp
  also have "(b - 1) div b = 0" using assms by (simp add: div_pos_pos_trivial)
  finally have "(n + b - 1) div b = k" using k by (simp add: algebra_simps)
  then show "round_up n b = n" using k by (simp add: round_up_def)
qed

lemma round_up_one [simp]: "round_up n 1 = n"
  by (simp add: round_up_def)

subsection \<open>Array reads of a chunk\<close>

lemma array_reads_append: "array_reads (xs @ ys) = array_reads xs @ array_reads ys"
  by (induction xs rule: array_reads.induct) simp_all

lemma array_reads_transaction [simp]:
  "array_reads (begin_calls w) = []" "array_reads (end_calls w) = []"
  by (simp_all add: begin_calls_def end_calls_def)

lemma array_reads_entries:
  assumes "\<And>k. set (array_reads (ev k)) = {k}"
  shows "set (array_reads (concat (map ev ks))) = set ks"
  using assms by (induction ks) (simp_all add: array_reads_append)

lemma array_reads_entry [simp]:
  "set (array_reads (write_entry_calls keys vals vs k)) = {k}"
  "set (array_reads (read_entry_calls keys k)) = {k}"
  "set (array_reads (delete_entry_calls keys k)) = {k}"
  by (simp_all add: write_entry_calls_def read_entry_calls_def delete_entry_calls_def)

lemma array_reads_chunk:
  assumes "\<And>k. set (array_reads (ev k)) = {k}"
  shows "set (array_reads (chunk_calls w ev n b)) = {0..round_up n b - 1}"
  by (simp add: chunk_calls_def array_reads_append array_reads_entries [OF assms])

lemma indices_in_bounds:
  assumes b: "0 < b" and n: "0 < n"
  shows "(\<forall>k \<in> {0..round_up n b - 1}. 0 \<le> k \<and> k < n) = (b dvd n)"
proof -
  have ge: "n \<le> round_up n b" using b by (rule round_up_ge)
  have "(\<forall>k \<in> {0..round_up n b - 1}. 0 \<le> k \<and> k < n) = (round_up n b \<le> n)"
  proof
    assume a: "\<forall>k \<in> {0..round_up n b - 1}. 0 \<le> k \<and> k < n"
    have "round_up n b - 1 \<in> {0..round_up n b - 1}" using ge n by simp
    with a have "round_up n b - 1 < n" by blast
    then show "round_up n b \<le> n" by simp
  next
    assume "round_up n b \<le> n"
    then show "\<forall>k \<in> {0..round_up n b - 1}. 0 \<le> k \<and> k < n" by auto
  qed
  also have "\<dots> = (round_up n b = n)" using ge by auto
  also have "\<dots> = (b dvd n)" using b by (rule round_up_dvd)
  finally show ?thesis .
qed

section \<open>Array indices read by a chunk\<close>

lemma chunk_reads:
  assumes ev: "\<And>k. set (array_reads (ev k)) = {k}"
    and b: "0 < b" and n: "0 < n" and same: "calls s' = calls s"
  shows "(\<forall>k \<in> set (array_reads (drop (length (calls s))
            (calls (chunk_effect w ev d n b s')))). 0 \<le> k \<and> k < n) = (b dvd n)"
  using same indices_in_bounds [OF b n]
  by (simp add: chunk_effect_calls array_reads_chunk [OF ev])

lemma chunk_reads_outside:
  assumes b: "0 < b" and n: "0 < n" and nd: "\<not> b dvd n" and c: "c \<in> set (ev n)"
    and same: "calls s' = calls s"
  shows "c \<in> set (drop (length (calls s)) (calls (chunk_effect w ev d n b s')))"
proof -
  have "n \<le> round_up n b" using b by (rule round_up_ge)
  moreover have "round_up n b \<noteq> n" using nd round_up_dvd [OF b, of n] by simp
  ultimately have "n \<in> set [0..round_up n b - 1]" using n by simp
  then have "c \<in> set (concat (map ev [0..round_up n b - 1]))" using c by auto
  then show ?thesis using same by (simp add: chunk_effect_calls chunk_calls_def)
qed

lemma at_length: "length xs = nat n \<Longrightarrow> 0 < n \<Longrightarrow> at xs n = None"
  by (simp add: at_def)

text \<open>
  Claim C9. In a chunk of \<open>n > 0\<close> entries of a write, read or delete workload with a
  positive entries-per-batch value \<open>b\<close>, all engine calls succeeding: every index
  \<open>i + j\<close> at which the key and value arrays are read satisfies \<open>0 \<le> i + j < n\<close> if and
  only if \<open>b\<close> divides \<open>n\<close>; when \<open>b\<close> does not divide \<open>n\<close> (a batch workload, \<open>b = 1000\<close>,
  on a chunk that is not a multiple of 1000) the chunk reads \<^verbatim>\<open>keys[n]\<close>, an index
  outside the generated batch at which the array has no element.
\<close>

theorem chunk_reads_in_bounds_iff:
  assumes ok: "\<forall>k. db_ok w k" and b: "0 < b" and n: "0 < n"
  shows "(\<exists>s'. write_chunk w order vs b n s = Some (Returns s')
            \<and> ((\<forall>k \<in> set (array_reads (drop (length (calls s)) (calls s'))). 0 \<le> k \<and> k < n)
                 = (b dvd n))
            \<and> (\<not> b dvd n \<longrightarrow>
                 Bind_int replace_stmt n None \<in> set (drop (length (calls s)) (calls s'))))
       \<and> (\<exists>s'. read_chunk w order b n s = Some (Returns s')
            \<and> ((\<forall>k \<in> set (array_reads (drop (length (calls s)) (calls s'))). 0 \<le> k \<and> k < n)
                 = (b dvd n))
            \<and> (\<not> b dvd n \<longrightarrow>
                 Bind_int read_stmt n None \<in> set (drop (length (calls s)) (calls s'))))
       \<and> (\<exists>s'. delete_chunk w order b n s = Some (Returns s')
            \<and> ((\<forall>k \<in> set (array_reads (drop (length (calls s)) (calls s'))). 0 \<le> k \<and> k < n)
                 = (b dvd n))
            \<and> (\<not> b dvd n \<longrightarrow>
                 Bind_int delete_stmt n None \<in> set (drop (length (calls s)) (calls s'))))"
proof (intro conjI)
  obtain keys vals r g where l: "length keys = nat n"
    and e: "write_chunk w order vs b n s =
      Some (Returns (chunk_effect w (write_entry_calls keys vals vs) (vs + 4) n b
        (s\<lparr>rand_' := r, gen_' := g\<rparr>)))"
    using write_chunk_ok [OF ok b] by blast
  have c: "calls (s\<lparr>rand_' := r, gen_' := g\<rparr>) = calls s" by simp
  have m: "Bind_int replace_stmt n None \<in> set (write_entry_calls keys vals vs n)"
    using at_length [OF l n] by (simp add: write_entry_calls_def)
  show "\<exists>s'. write_chunk w order vs b n s = Some (Returns s')
            \<and> ((\<forall>k \<in> set (array_reads (drop (length (calls s)) (calls s'))). 0 \<le> k \<and> k < n)
                 = (b dvd n))
            \<and> (\<not> b dvd n \<longrightarrow>
                 Bind_int replace_stmt n None \<in> set (drop (length (calls s)) (calls s')))"
  proof (intro exI [of _ "chunk_effect w (write_entry_calls keys vals vs) (vs + 4) n b (s\<lparr>rand_' := r, gen_' := g\<rparr>)"] conjI impI)
    show "(\<forall>k \<in> set (array_reads (drop (length (calls s))
              (calls (chunk_effect w (write_entry_calls keys vals vs) (vs + 4) n b (s\<lparr>rand_' := r, gen_' := g\<rparr>))))).
            0 \<le> k \<and> k < n) = (b dvd n)"
      by (rule chunk_reads [OF array_reads_entry(1) b n c])
    show "Bind_int replace_stmt n None \<in> set (drop (length (calls s))
              (calls (chunk_effect w (write_entry_calls keys vals vs) (vs + 4) n b (s\<lparr>rand_' := r, gen_' := g\<rparr>))))"
      if "\<not> b dvd n"
      by (rule chunk_reads_outside [where ev = "write_entry_calls keys vals vs", OF b n that m c])
  qed (rule e)
next
  obtain keys r where l: "length keys = nat n"
    and e: "read_chunk w order b n s =
      Some (Returns (chunk_effect w (read_entry_calls keys) 0 n b (s\<lparr>rand_' := r\<rparr>)))"
    using read_chunk_ok [OF ok b] by blast
  have c: "calls (s\<lparr>rand_' := r\<rparr>) = calls s" by simp
  have m: "Bind_int read_stmt n None \<in> set (read_entry_calls keys n)"
    using at_length [OF l n] by (simp add: read_entry_calls_def)
  show "\<exists>s'. read_chunk w order b n s = Some (Returns s')
            \<and> ((\<forall>k \<in> set (array_reads (drop (length (calls s)) (calls s'))). 0 \<le> k \<and> k < n)
                 = (b dvd n))
            \<and> (\<not> b dvd n \<longrightarrow>
                 Bind_int read_stmt n None \<in> set (drop (length (calls s)) (calls s')))"
  proof (intro exI [of _ "chunk_effect w (read_entry_calls keys) 0 n b (s\<lparr>rand_' := r\<rparr>)"] conjI impI)
    show "(\<forall>k \<in> set (array_reads (drop (length (calls s))
              (calls (chunk_effect w (read_entry_calls keys) 0 n b (s\<lparr>rand_' := r\<rparr>))))).
            0 \<le> k \<and> k < n) = (b dvd n)"
      by (rule chunk_reads [OF array_reads_entry(2) b n c])
    show "Bind_int read_stmt n None \<in> set (drop (length (calls s))
              (calls (chunk_effect w (read_entry_calls keys) 0 n b (s\<lparr>rand_' := r\<rparr>))))"
      if "\<not> b dvd n"
      by (rule chunk_reads_outside [where ev = "read_entry_calls keys", OF b n that m c])
  qed (rule e)
next
  obtain keys r where l: "length keys = nat n"
    and e: "delete_chunk w order b n s =
      Some (Returns (chunk_effect w (delete_entry_calls keys) 0 n b (s\<lparr>rand_' := r\<rparr>)))"
    using delete_chunk_ok [OF ok b] by blast
  have c: "calls (s\<lparr>rand_' := r\<rparr>) = calls s" by simp
  have m: "Bind_int delete_stmt n None \<in> set (delete_entry_calls keys n)"
    using at_length [OF l n] by (simp add: delete_entry_calls_def)
  show "\<exists>s'. delete_chunk w order b n s = Some (Returns s')
            \<and> ((\<forall>k \<in> set (array_reads (drop (length (calls s)) (calls s'))). 0 \<le> k \<and> k < n)
                 = (b dvd n))
            \<and> (\<not> b dvd n \<longrightarrow>
                 Bind_int delete_stmt n None \<in> set (drop (length (calls s)) (calls s')))"
  proof (intro exI [of _ "chunk_effect w (delete_entry_calls keys) 0 n b (s\<lparr>rand_' := r\<rparr>)"] conjI impI)
    show "(\<forall>k \<in> set (array_reads (drop (length (calls s))
              (calls (chunk_effect w (delete_entry_calls keys) 0 n b (s\<lparr>rand_' := r\<rparr>))))).
            0 \<le> k \<and> k < n) = (b dvd n)"
      by (rule chunk_reads [OF array_reads_entry(3) b n c])
    show "Bind_int delete_stmt n None \<in> set (drop (length (calls s))
              (calls (chunk_effect w (delete_entry_calls keys) 0 n b (s\<lparr>rand_' := r\<rparr>))))"
      if "\<not> b dvd n"
      by (rule chunk_reads_outside [where ev = "delete_entry_calls keys", OF b n that m c])
  qed (rule e)
qed

theorem chunk_reads_in_bounds_iff_witness:
  "(\<forall>k. db_ok (calm_world init 1) k) \<and> (0::int) < 2 \<and> (0::int) < 3 \<and> \<not> (2::int) dvd 3
   \<and> (\<exists>s'. write_chunk (calm_world init 1) SEQUENTIAL 4 2 3 (benchmark_init (calm_world init 1))
             = Some (Returns s')
          \<and> Bind_int replace_stmt 3 None \<in> set (calls s'))
   \<and> array_reads (calls_of (write_chunk (calm_world init 1) SEQUENTIAL 4 2 3
         (benchmark_init (calm_world init 1)))) = [0, 0, 1, 1, 2, 2, 3, 3]"
proof -
  let ?w = "calm_world init 1"
  have ok: "\<forall>k. db_ok ?w k" by (simp add: calm_world_def)
  have b: "(0::int) < 2" and n: "(0::int) < 3" and d: "\<not> (2::int) dvd 3" by simp_all
  have e: "calls (benchmark_init ?w) = []" by (simp add: benchmark_init_def)
  have "\<exists>s'. write_chunk ?w SEQUENTIAL 4 2 3 (benchmark_init ?w) = Some (Returns s')
          \<and> Bind_int replace_stmt 3 None \<in> set (calls s')"
    using chunk_reads_in_bounds_iff [OF ok b n, where order = SEQUENTIAL and vs = 4
        and s = "benchmark_init ?w"] d
    unfolding e by auto
  moreover have "array_reads (calls_of (write_chunk ?w SEQUENTIAL 4 2 3 (benchmark_init ?w)))
      = [0, 0, 1, 1, 2, 2, 3, 3]"
    by code_simp
  ultimately show ?thesis using ok b n d by blast
qed
section \<open>What the workload functions are observed to do\<close>

subsection \<open>Counting the executions of a statement\<close>

lemma count_transaction [simp]:
  "count_list (begin_calls w) (Step replace_stmt) = 0"
  "count_list (end_calls w) (Step replace_stmt) = 0"
  "count_list (begin_calls w) (Step read_stmt) = 0"
  "count_list (end_calls w) (Step read_stmt) = 0"
  "count_list (begin_calls w) (Step begin_trans_stmt) = (if FLAGS_transaction (FLAGS w) then 1 else 0)"
  "count_list (end_calls w) (Step begin_trans_stmt) = 0"
  by (simp_all add: begin_calls_def end_calls_def)

lemma count_entries:
  assumes "\<And>k. count_list (ev k) c = m"
  shows "count_list (concat (map ev ks)) c = m * length ks"
  using assms by (induction ks) simp_all

lemma count_entry [simp]:
  "count_list (write_entry_calls keys vals vs k) (Step replace_stmt) = 1"
  "count_list (write_entry_calls keys vals vs k) (Step begin_trans_stmt) = 0"
  "count_list (read_entry_calls keys k) (Step read_stmt) = 1"
  "count_list (read_entry_calls keys k) (Step begin_trans_stmt) = 0"
  by (simp_all add: write_entry_calls_def read_entry_calls_def)

lemma count_chunk:
  "count_list (chunk_calls w (write_entry_calls keys vals vs) n b) (Step replace_stmt)
     = nat (round_up n b)"
  "count_list (chunk_calls w (read_entry_calls keys) n b) (Step read_stmt) = nat (round_up n b)"
  "count_list (chunk_calls w (write_entry_calls keys vals vs) n b) (Step begin_trans_stmt)
     = (if FLAGS_transaction (FLAGS w) then 1 else 0)"
  "count_list (chunk_calls w (read_entry_calls keys) n b) (Step begin_trans_stmt)
     = (if FLAGS_transaction (FLAGS w) then 1 else 0)"
  by (simp_all add: chunk_calls_def
      count_entries [where ev = "write_entry_calls keys vals vs" and m = 1]
      count_entries [where ev = "write_entry_calls keys vals vs" and m = 0]
      count_entries [where ev = "read_entry_calls keys" and m = 1]
      count_entries [where ev = "read_entry_calls keys" and m = 0])

subsection \<open>Transactions among the calls\<close>

lemma txn_sizes_plain: "plain xs \<Longrightarrow> txn_sizes (xs @ ys) cur = txn_sizes ys cur"
  by (induction xs) (auto simp: plain_def)

lemma txn_sizes_entries:
  "txn_sizes (concat (map (write_entry_calls keys vals vs) ks) @ ys) cur
     = txn_sizes ys (map_option (\<lambda>m. m + length ks) cur)"
proof (induction ks arbitrary: cur)
  case Nil
  then show ?case by (simp add: option.map_ident)
next
  case (Cons k ks)
  show ?case
    by (simp add: write_entry_calls_def Cons.IH [unfolded write_entry_calls_def]
        option.map_comp comp_def)
qed

lemma txn_sizes_chunk:
  assumes "FLAGS_transaction (FLAGS w)" and "plain ys"
  shows "txn_sizes (chunk_calls w (write_entry_calls keys vals vs) n b @ ys) cur
     = [nat (round_up n b)]"
  using assms txn_sizes_plain [of ys "[]"]
  by (simp add: chunk_calls_def begin_calls_def end_calls_def txn_sizes_entries)

lemma sync_pragmas_append [simp]: "sync_pragmas (xs @ ys) = sync_pragmas xs @ sync_pragmas ys"
  by (simp add: sync_pragmas_def)

lemma sync_pragmas_chunk [simp]:
  "sync_pragmas (chunk_calls w (write_entry_calls keys vals vs) n b) = []"
proof -
  have "sync_pragmas (concat (map (write_entry_calls keys vals vs) ks)) = []" for ks
    by (induction ks) (simp_all add: sync_pragmas_def write_entry_calls_def)
  then show ?thesis
    by (simp add: chunk_calls_def begin_calls_def end_calls_def) (simp add: sync_pragmas_def)
qed

text \<open>
  What \<^verbatim>\<open>benchmark_write\<close> is observed to do when every engine call succeeds.
\<close>

lemma write_observed:
  fixes ne n :: int
  assumes ok: "\<forall>k. db_ok w k" and b: "0 < b"
  defines "n \<equiv> (if ne > MAXNUMPERTIME then MAXNUMPERTIME else ne)"
  shows "\<exists>s' new. benchmark_write w ws order ne vs b s = Some (Returns s')
     \<and> calls s' = calls s @ new
     \<and> count_list new (Step replace_stmt) = (if 0 < n then nat (round_up n b) else 0)
     \<and> count_list new (Step begin_trans_stmt)
         = (if 0 < n \<and> FLAGS_transaction (FLAGS w) then 1 else 0)
     \<and> sync_pragmas new =
         [Exec (if ws then PRAGMA_synchronous_FULL else PRAGMA_synchronous_OFF)]
     \<and> (FLAGS_transaction (FLAGS w) \<longrightarrow>
          (\<forall>P Q. plain P \<longrightarrow> plain Q \<longrightarrow>
             txn_sizes (P @ new @ Q) None = (if 0 < n then [nat (round_up n b)] else [])))
     \<and> num_' s' = num_' s \<and> reads_' s' = reads_' s \<and> table_created s' = table_created s
     \<and> bytes_' s' = bytes_' s + (if 0 < n then (vs + 4) * int (length [0..round_up n b - 1]) else 0)
     \<and> message_' s' = (if ne \<noteq> num_' s then Some (take 99 (''('' @ dec ne @ '' ops)''))
                       else message_' s)
     \<and> op_total_time_' s' = op_total_time_' s +
          (if 0 < n then now_micros w (clock s + 1) - now_micros w (clock s) else 0)"
proof -
  obtain s' keys vals where r: "benchmark_write w ws order ne vs b s = Some (Returns s')"
    and c: "calls s' = calls s @
          [Exec (if ws then PRAGMA_synchronous_FULL else PRAGMA_synchronous_OFF),
           Prepare replace_stmt REPLACE_INTO, Prepare begin_trans_stmt BEGIN_TRANSACTION,
           Prepare end_trans_stmt END_TRANSACTION] @
          (if 0 < n then chunk_calls w (write_entry_calls keys vals vs) n b else []) @
          [Finalize replace_stmt, Finalize begin_trans_stmt, Finalize end_trans_stmt]"
    and f: "num_' s' = num_' s" "reads_' s' = reads_' s" "table_created s' = table_created s"
      "bytes_' s' = bytes_' s + (if 0 < n then (vs + 4) * int (length [0..round_up n b - 1]) else 0)"
      "message_' s' = (if ne \<noteq> num_' s then Some (take 99 (''('' @ dec ne @ '' ops)''))
                       else message_' s)"
      "op_total_time_' s' = op_total_time_' s +
          (if 0 < n then now_micros w (clock s + 1) - now_micros w (clock s) else 0)"
    using benchmark_write_ok [OF ok b, where ws = ws and order = order and ne = ne and vs = vs and s = s]
    unfolding n_def by blast
  define A where "A = [Exec (if ws then PRAGMA_synchronous_FULL else PRAGMA_synchronous_OFF),
           Prepare replace_stmt REPLACE_INTO, Prepare begin_trans_stmt BEGIN_TRANSACTION,
           Prepare end_trans_stmt END_TRANSACTION]"
  define Z where "Z = [Finalize replace_stmt, Finalize begin_trans_stmt, Finalize end_trans_stmt]"
  define M where "M = (if 0 < n then chunk_calls w (write_entry_calls keys vals vs) n b else [])"
  have pA: "plain A" and pZ: "plain Z" by (simp_all add: A_def Z_def plain_def)
  have c': "calls s' = calls s @ (A @ M @ Z)" using c by (simp add: A_def Z_def M_def)
  have k1: "count_list (A @ M @ Z) (Step replace_stmt) = (if 0 < n then nat (round_up n b) else 0)"
    by (simp add: A_def Z_def M_def count_chunk)
  have k2: "count_list (A @ M @ Z) (Step begin_trans_stmt)
         = (if 0 < n \<and> FLAGS_transaction (FLAGS w) then 1 else 0)"
    by (simp add: A_def Z_def M_def count_chunk)
  have k3: "sync_pragmas (A @ M @ Z) =
         [Exec (if ws then PRAGMA_synchronous_FULL else PRAGMA_synchronous_OFF)]"
    by (simp add: M_def) (simp add: A_def Z_def sync_pragmas_def)
  have k4: "txn_sizes (P @ (A @ M @ Z) @ Q) None = (if 0 < n then [nat (round_up n b)] else [])"
    if t: "FLAGS_transaction (FLAGS w)" and pP: "plain P" and pQ: "plain Q" for P Q
  proof -
    have pZQ: "plain (Z @ Q)" using pZ pQ by (simp add: plain_def)
    have "txn_sizes (P @ (A @ M @ Z) @ Q) None = txn_sizes (M @ (Z @ Q)) None"
      using txn_sizes_plain [OF pP] txn_sizes_plain [OF pA] by simp
    also have "\<dots> = (if 0 < n then [nat (round_up n b)] else [])"
      using txn_sizes_chunk [OF t pZQ] txn_sizes_plain [OF pZQ, of "[]"]
      by (simp add: M_def)
    finally show ?thesis .
  qed
  show ?thesis
    using r c' k1 k2 k3 k4 f
    by (intro exI [of _ s'] exI [of _ "A @ M @ Z"]) (simp del: length_upto append_assoc)
qed

lemma read_observed:
  assumes ok: "\<forall>k. db_ok w k"
  shows "\<exists>s'. benchmark_read w order 1 s = Some (Returns s')
     \<and> count_list (drop (length (calls s)) (calls s')) (Step read_stmt)
         = nat (min (reads_' s) MAXNUMPERTIME)
     \<and> count_list (drop (length (calls s)) (calls s')) (Step begin_trans_stmt)
         = (if 0 < reads_' s \<and> FLAGS_transaction (FLAGS w) then 1 else 0)
     \<and> num_' s' = num_' s \<and> reads_' s' = reads_' s
     \<and> op_total_time_' s' = op_total_time_' s +
          (if 0 < reads_' s then now_micros w (clock s + 1) - now_micros w (clock s) else 0)"
proof -
  have b: "(0::int) < 1" by simp
  have m: "0 < MAXNUMPERTIME" by (simp add: MAXNUMPERTIME_def)
  obtain s' keys where r: "benchmark_read w order 1 s = Some (Returns s')"
    and c: "calls s' = calls s @
          [Prepare begin_trans_stmt BEGIN_TRANSACTION, Prepare end_trans_stmt END_TRANSACTION,
           Prepare read_stmt SELECT_FROM] @
          (if 0 < (if reads_' s > MAXNUMPERTIME then MAXNUMPERTIME else reads_' s)
           then chunk_calls w (read_entry_calls keys)
                  (if reads_' s > MAXNUMPERTIME then MAXNUMPERTIME else reads_' s) 1 else []) @
          [Finalize read_stmt, Finalize begin_trans_stmt, Finalize end_trans_stmt]"
    and f: "num_' s' = num_' s" "reads_' s' = reads_' s"
      "op_total_time_' s' = op_total_time_' s +
          (if 0 < (if reads_' s > MAXNUMPERTIME then MAXNUMPERTIME else reads_' s)
           then now_micros w (clock s + 1) - now_micros w (clock s) else 0)"
    using benchmark_read_ok [OF ok b, where s = s and order = order] by blast
  show ?thesis
    using r f m by (intro exI [of _ s']) (auto simp: c count_chunk min_def)
qed

section \<open>One name of the benchmark list\<close>

lemma workload_start_fields [simp]:
  "num_' (workload_start name s) = num_' s"
  "reads_' (workload_start name s) = reads_' s"
  "bytes_' (workload_start name s) = 0"
  "message_' (workload_start name s) = Some []"
  "op_total_time_' (workload_start name s) = 0"
  "clock (workload_start name s) = clock s"
  "printed (workload_start name s) = printed s"
  "calls (workload_start name s) = calls s @
     (if name \<in> set fresh_table_workloads \<and> \<not> table_created s then [Exec CREATE_TABLE] else [])"
  by (simp_all add: workload_start_def start_def)

lemma stop_fields [simp]:
  "num_' (stop w name s) = num_' s"
  "reads_' (stop w name s) = reads_' s"
  "calls (stop w name s) = calls s"
  "op_total_time_' (stop w name s) = op_total_time_' s"
  "printed (stop w name s) = printed s @
     [Micros_per_op name (op_total_time_' s) (if done_' s < 1 then 1 else done_' s),
      Micros_in_total name (op_total_time_' s)]"
  by (simp_all add: stop_def Let_def split: option.split)

lemma run_benchmark_known:
  assumes ok: "\<forall>k. db_ok w k" and wl: "workload w name = Some f"
    and f: "f (workload_start name s) = Some (Returns s')"
  shows "run_benchmark w name s = Some (Returns (stop w name s'))"
  using f
  by (cases "name \<in> set fresh_table_workloads \<and> \<not> table_created s")
    (auto simp: run_benchmark_def wl if_create_database_def thn_def ret_def
      db_call_ok [OF ok] workload_start_def)

lemma run_benchmark_unknown:
  assumes wl: "workload w name = None" and fr: "name \<notin> set fresh_table_workloads"
  shows "run_benchmark w name s =
     Some (Returns (if name \<noteq> []
        then (start (s\<lparr>bytes_' := 0\<rparr>))\<lparr>printed := printed s @ [Unknown_benchmark name]\<rparr>
        else start (s\<lparr>bytes_' := 0\<rparr>)))"
  using fr
  by (simp add: run_benchmark_def wl if_create_database_def thn_def ret_def start_def)

lemma workload_recognized: "(workload w name \<noteq> None) = (name \<in> set recognized)"
  by (simp add: workload_def recognized_def Let_def)

lemma fresh_recognized: "set fresh_table_workloads \<subseteq> set recognized"
  by (simp add: fresh_table_workloads_def recognized_def)

subsection \<open>A write workload, from its name to its summary\<close>

lemma write_workload_observed:
  fixes n :: int and s :: bench
  assumes ok: "\<forall>k. db_ok w k" and b: "0 < b"
    and wl: "workload w name =
       Some (\<lambda>s. steps [benchmark_write w ws order (g (num_' s)) vs b, wal_checkpoint w] s)"
  defines "n \<equiv> (if g (num_' s) > MAXNUMPERTIME then MAXNUMPERTIME else g (num_' s))"
  shows "\<exists>s' new. run_benchmark w name s = Some (Returns s')
     \<and> calls s' = calls s @ new
     \<and> count_list new (Step replace_stmt) = (if 0 < n then nat (round_up n b) else 0)
     \<and> count_list new (Step begin_trans_stmt)
         = (if 0 < n \<and> FLAGS_transaction (FLAGS w) then 1 else 0)
     \<and> sync_pragmas new =
         [Exec (if ws then PRAGMA_synchronous_FULL else PRAGMA_synchronous_OFF)]
     \<and> (FLAGS_transaction (FLAGS w) \<longrightarrow>
          txn_sizes new None = (if 0 < n then [nat (round_up n b)] else []))
     \<and> num_' s' = num_' s \<and> reads_' s' = reads_' s
     \<and> op_total_time_' s' =
          (if 0 < n then now_micros w (clock s + 1) - now_micros w (clock s) else 0)
     \<and> (\<exists>s2. s' = stop w name s2
           \<and> bytes_' s2 = (if 0 < n then (vs + 4) * int (length [0..round_up n b - 1]) else 0)
           \<and> message_' s2 = (if g (num_' s) \<noteq> num_' s
                 then Some (take 99 (''('' @ dec (g (num_' s)) @ '' ops)'')) else Some [])
           \<and> op_total_time_' s2 =
                (if 0 < n then now_micros w (clock s + 1) - now_micros w (clock s) else 0))"
proof -
  define s0 where "s0 = workload_start name s"
  define C where "C = (if name \<in> set fresh_table_workloads \<and> \<not> table_created s
      then [Exec CREATE_TABLE] else [])"
  define W where "W = (if FLAGS_WAL_enabled (FLAGS w) then [Wal_checkpoint] else [])"
  have c0: "calls s0 = calls s @ C" and n0: "num_' s0 = num_' s" and r0: "reads_' s0 = reads_' s"
    and t0: "op_total_time_' s0 = 0" and k0: "clock s0 = clock s"
    and b0: "bytes_' s0 = 0" and m0: "message_' s0 = Some []"
    by (simp_all add: s0_def C_def)
  obtain s1 new where r: "benchmark_write w ws order (g (num_' s0)) vs b s0 = Some (Returns s1)"
    and c1: "calls s1 = calls s0 @ new"
    and k1: "count_list new (Step replace_stmt) = (if 0 < n then nat (round_up n b) else 0)"
    and k2: "count_list new (Step begin_trans_stmt)
         = (if 0 < n \<and> FLAGS_transaction (FLAGS w) then 1 else 0)"
    and k3: "sync_pragmas new =
         [Exec (if ws then PRAGMA_synchronous_FULL else PRAGMA_synchronous_OFF)]"
    and k4: "FLAGS_transaction (FLAGS w) \<longrightarrow>
          (\<forall>P Q. plain P \<longrightarrow> plain Q \<longrightarrow>
             txn_sizes (P @ new @ Q) None = (if 0 < n then [nat (round_up n b)] else []))"
    and f: "num_' s1 = num_' s0" "reads_' s1 = reads_' s0"
      "op_total_time_' s1 = op_total_time_' s0 +
          (if 0 < n then now_micros w (clock s0 + 1) - now_micros w (clock s0) else 0)"
    and f2: "bytes_' s1 = bytes_' s0 +
          (if 0 < n then (vs + 4) * int (length [0..round_up n b - 1]) else 0)"
      "message_' s1 = (if g (num_' s0) \<noteq> num_' s0
          then Some (take 99 (''('' @ dec (g (num_' s0)) @ '' ops)'')) else message_' s0)"
    using write_observed [OF ok b, where ws = ws and order = order and ne = "g (num_' s0)"
        and vs = vs and s = s0]
    unfolding n_def n0 by blast
  define s2 where "s2 = s1\<lparr>calls := calls s1 @ W\<rparr>"
  have "wal_checkpoint w s1 = Some (Returns s2)"
    by (simp add: wal_checkpoint_def ret_def s2_def W_def)
  then have "steps [benchmark_write w ws order (g (num_' s0)) vs b, wal_checkpoint w] s0
      = Some (Returns s2)"
    using r by (simp add: thn_def ret_def)
  then have run: "run_benchmark w name s = Some (Returns (stop w name s2))"
    using run_benchmark_known [OF ok wl, of s s2] by (simp add: s0_def)
  have pC: "plain C" and pW: "plain W" by (simp_all add: C_def W_def plain_def)
  have cs: "calls (stop w name s2) = calls s @ (C @ new @ W)"
    by (simp add: s2_def c1 c0)
  have o1: "count_list (C @ new @ W) (Step replace_stmt) = (if 0 < n then nat (round_up n b) else 0)"
    using k1 by (simp add: C_def W_def)
  have o2: "count_list (C @ new @ W) (Step begin_trans_stmt)
         = (if 0 < n \<and> FLAGS_transaction (FLAGS w) then 1 else 0)"
    using k2 by (simp add: C_def W_def)
  have o3: "sync_pragmas (C @ new @ W) =
         [Exec (if ws then PRAGMA_synchronous_FULL else PRAGMA_synchronous_OFF)]"
    using k3 by (simp add: C_def W_def) (simp add: sync_pragmas_def)
  have o4: "FLAGS_transaction (FLAGS w) \<longrightarrow>
          txn_sizes (C @ new @ W) None = (if 0 < n then [nat (round_up n b)] else [])"
    using k4 pC pW by blast
  have o5: "num_' (stop w name s2) = num_' s" "reads_' (stop w name s2) = reads_' s"
    "op_total_time_' (stop w name s2) =
          (if 0 < n then now_micros w (clock s + 1) - now_micros w (clock s) else 0)"
    using f by (simp_all add: s2_def n0 r0 t0 k0)
  have p6: "bytes_' s2 = (if 0 < n then (vs + 4) * int (length [0..round_up n b - 1]) else 0)"
    "message_' s2 = (if g (num_' s) \<noteq> num_' s
                 then Some (take 99 (''('' @ dec (g (num_' s)) @ '' ops)'')) else Some [])"
    "op_total_time_' s2 =
                (if 0 < n then now_micros w (clock s + 1) - now_micros w (clock s) else 0)"
    using f f2 by (simp_all add: s2_def n0 b0 m0 t0 k0 del: length_upto)
  have o6: "\<exists>s2'. stop w name s2 = stop w name s2'
           \<and> bytes_' s2' = (if 0 < n then (vs + 4) * int (length [0..round_up n b - 1]) else 0)
           \<and> message_' s2' = (if g (num_' s) \<noteq> num_' s
                 then Some (take 99 (''('' @ dec (g (num_' s)) @ '' ops)'')) else Some [])
           \<and> op_total_time_' s2' =
                (if 0 < n then now_micros w (clock s + 1) - now_micros w (clock s) else 0)"
    by (rule exI [of _ s2]) (intro conjI refl p6)
  show ?thesis
    by (rule exI [of _ "stop w name s2"], rule exI [of _ "C @ new @ W"])
      (intro conjI run cs o1 o2 o3 o4 o5 o6)
qed

section \<open>Batch workloads and transactions\<close>


lemma workload_non_batch:
  "workload w ''fillseq'' = Some (\<lambda>s. steps
     [benchmark_write w False SEQUENTIAL ((\<lambda>x. x) (num_' s)) (FLAGS_value_size (FLAGS w)) 1,
      wal_checkpoint w] s)"
  "workload w ''fillrandom'' = Some (\<lambda>s. steps
     [benchmark_write w False RANDOM ((\<lambda>x. x) (num_' s)) (FLAGS_value_size (FLAGS w)) 1,
      wal_checkpoint w] s)"
  "workload w ''overwrite'' = Some (\<lambda>s. steps
     [benchmark_write w False RANDOM ((\<lambda>x. x) (num_' s)) (FLAGS_value_size (FLAGS w)) 1,
      wal_checkpoint w] s)"
  by (simp_all add: workload_def)


lemma non_batch_observed:
  assumes ok: "\<forall>k. db_ok w k"
    and name: "name \<in> {''fillseq'', ''fillrandom'', ''overwrite''}"
  shows "\<exists>s'. run_benchmark w name s = Some (Returns s')
     \<and> sync_pragmas (drop (length (calls s)) (calls s')) = [Exec PRAGMA_synchronous_OFF]"
proof -
  have b: "(0::int) < 1" by simp
  obtain ord where wl: "workload w name = Some (\<lambda>s. steps
     [benchmark_write w False ord ((\<lambda>x. x) (num_' s)) (FLAGS_value_size (FLAGS w)) 1,
      wal_checkpoint w] s)"
    using name workload_non_batch [of w] by auto
  obtain s' new where "run_benchmark w name s = Some (Returns s')"
    and "calls s' = calls s @ new"
    and "sync_pragmas new = [Exec (if False then PRAGMA_synchronous_FULL else PRAGMA_synchronous_OFF)]"
    using write_workload_observed [OF ok b wl, of s] by blast
  then show ?thesis by (intro exI [of _ s']) simp
qed







section \<open>The chunk loop\<close>

lemma workload_read:
  "workload w ''readseq'' = Some (benchmark_read w SEQUENTIAL 1)"
  "workload w ''readrandom'' = Some (benchmark_read w RANDOM 1)"
  by (simp_all add: workload_def)

lemma read_workload_observed:
  assumes ok: "\<forall>k. db_ok w k"
    and wl: "workload w name = Some (benchmark_read w order 1)"
    and nf: "name \<notin> set fresh_table_workloads"
  shows "\<exists>s'. run_benchmark w name s = Some (Returns s')
     \<and> count_list (drop (length (calls s)) (calls s')) (Step read_stmt)
         = nat (min (reads_' s) MAXNUMPERTIME)
     \<and> count_list (drop (length (calls s)) (calls s')) (Step begin_trans_stmt)
         = (if 0 < reads_' s \<and> FLAGS_transaction (FLAGS w) then 1 else 0)
     \<and> num_' s' = num_' s \<and> reads_' s' = reads_' s
     \<and> op_total_time_' s' =
          (if 0 < reads_' s then now_micros w (clock s + 1) - now_micros w (clock s) else 0)"
proof -
  define s0 where "s0 = workload_start name s"
  have c0: "calls s0 = calls s" and n0: "num_' s0 = num_' s" and r0: "reads_' s0 = reads_' s"
    and t0: "op_total_time_' s0 = 0" and k0: "clock s0 = clock s"
    using nf by (simp_all add: s0_def)
  obtain s1 where r: "benchmark_read w order 1 s0 = Some (Returns s1)"
    and k: "count_list (drop (length (calls s0)) (calls s1)) (Step read_stmt)
         = nat (min (reads_' s0) MAXNUMPERTIME)"
      "count_list (drop (length (calls s0)) (calls s1)) (Step begin_trans_stmt)
         = (if 0 < reads_' s0 \<and> FLAGS_transaction (FLAGS w) then 1 else 0)"
    and f: "num_' s1 = num_' s0" "reads_' s1 = reads_' s0"
      "op_total_time_' s1 = op_total_time_' s0 +
          (if 0 < reads_' s0 then now_micros w (clock s0 + 1) - now_micros w (clock s0) else 0)"
    using read_observed [OF ok, of order s0] by blast
  have "run_benchmark w name s = Some (Returns (stop w name s1))"
    using run_benchmark_known [OF ok wl, of s s1] r by (simp add: s0_def)
  then show ?thesis
    using k f by (intro exI [of _ "stop w name s1"]) (simp add: c0 n0 r0 t0 k0)
qed

text \<open>
  Claim C1 against the code. With 1,200,000 entries (and as many reads) \<^verbatim>\<open>fillseq\<close>
  executes 500,000 \<^verbatim>\<open>REPLACE\<close> statements in one transaction and \<^verbatim>\<open>readseq\<close> 500,000
  \<^verbatim>\<open>SELECT\<close> statements in one transaction, and the total time is the 10 microseconds
  between the two clock readings of a single chunk: the loop variable starts at the
  chunk size and the loop ends after one chunk of 500,000.
\<close>

theorem one_chunk_of_1200000:
  "(\<exists>s'. run_benchmark (calm_world (init\<lparr>FLAGS_num := 1200000\<rparr>) 1) ''fillseq''
            (benchmark_init (calm_world (init\<lparr>FLAGS_num := 1200000\<rparr>) 1)) = Some (Returns s')
        \<and> count_list (calls s') (Step replace_stmt) = 500000
        \<and> count_list (calls s') (Step begin_trans_stmt) = 1
        \<and> op_total_time_' s' = 10)
   \<and> (\<exists>s'. run_benchmark (calm_world (init\<lparr>FLAGS_num := 1200000\<rparr>) 1) ''readseq''
            (benchmark_init (calm_world (init\<lparr>FLAGS_num := 1200000\<rparr>) 1)) = Some (Returns s')
        \<and> count_list (calls s') (Step read_stmt) = 500000
        \<and> count_list (calls s') (Step begin_trans_stmt) = 1
        \<and> op_total_time_' s' = 10)"
proof
  let ?w = "calm_world (init\<lparr>FLAGS_num := 1200000\<rparr>) 1"
  have ok: "\<forall>k. db_ok ?w k" and tr: "FLAGS_transaction (FLAGS ?w)"
    and t: "\<And>k. now_micros ?w (Suc k) - now_micros ?w k = 10"
    by (simp_all add: calm_world_def init_def)
  have n: "num_' (benchmark_init ?w) = 1200000" and rd: "reads_' (benchmark_init ?w) = 1200000"
    and c: "calls (benchmark_init ?w) = []"
    by (simp_all add: benchmark_init_def calm_world_def init_def)
  have b: "(0::int) < 1" by simp
  show "\<exists>s'. run_benchmark ?w ''fillseq'' (benchmark_init ?w) = Some (Returns s')
        \<and> count_list (calls s') (Step replace_stmt) = 500000
        \<and> count_list (calls s') (Step begin_trans_stmt) = 1
        \<and> op_total_time_' s' = 10"
    using write_workload_observed [OF ok b workload_non_batch(1), of "benchmark_init ?w"] tr t
    by (auto simp: n c MAXNUMPERTIME_def)
  have nf: "''readseq'' \<notin> set fresh_table_workloads" by (simp add: fresh_table_workloads_def)
  show "\<exists>s'. run_benchmark ?w ''readseq'' (benchmark_init ?w) = Some (Returns s')
        \<and> count_list (calls s') (Step read_stmt) = 500000
        \<and> count_list (calls s') (Step begin_trans_stmt) = 1
        \<and> op_total_time_' s' = 10"
    using read_workload_observed [OF ok workload_read(1) nf, of "benchmark_init ?w"] tr t
    by (auto simp: rd c MAXNUMPERTIME_def)
qed

section \<open>The read count of readrand100K\<close>

lemma workload_readrand100K:
  "workload w ''readrand100K'' = Some (\<lambda>s.
        (let n = reads_' s
         in steps [\<lambda>s. ret (s\<lparr>reads_' := c_div (reads_' s) 1000\<rparr>),
                   benchmark_read w RANDOM 1,
                   \<lambda>s. ret (s\<lparr>reads_' := n\<rparr>)] s))"
  by (simp add: workload_def)

text \<open>
  Claim C4. When \<^verbatim>\<open>readrand100K\<close> runs, all engine calls succeeding, its reads are
  counted from the read count divided by 1000 (the C division): it executes
  \<open>min (reads / 1000) MAXNUMPERTIME\<close> \<^verbatim>\<open>SELECT\<close> statements. When it has finished the
  read count is what it was before, and a \<^verbatim>\<open>readrandom\<close> that follows reads from the
  original count.
\<close>

theorem readrand100K_read_count:
  assumes ok: "\<forall>k. db_ok w k"
  shows "\<exists>s'. run_benchmark w ''readrand100K'' s = Some (Returns s')
     \<and> count_list (drop (length (calls s)) (calls s')) (Step read_stmt)
         = nat (min (c_div (reads_' s) 1000) MAXNUMPERTIME)
     \<and> reads_' s' = reads_' s \<and> num_' s' = num_' s
     \<and> (\<exists>s''. run_benchmark w ''readrandom'' s' = Some (Returns s'')
           \<and> count_list (drop (length (calls s')) (calls s'')) (Step read_stmt)
               = nat (min (reads_' s) MAXNUMPERTIME)
           \<and> reads_' s'' = reads_' s)"
proof -
  have nf: "''readrand100K'' \<notin> set fresh_table_workloads"
    and nf': "''readrandom'' \<notin> set fresh_table_workloads"
    by (simp_all add: fresh_table_workloads_def)
  define s0 where "s0 = workload_start ''readrand100K'' s"
  have c0: "calls s0 = calls s" and n0: "num_' s0 = num_' s" and r0: "reads_' s0 = reads_' s"
    using nf by (simp_all add: s0_def)
  define s1 where "s1 = s0\<lparr>reads_' := c_div (reads_' s0) 1000\<rparr>"
  have c1: "calls s1 = calls s" and n1: "num_' s1 = num_' s"
    and r1: "reads_' s1 = c_div (reads_' s) 1000"
    by (simp_all add: s1_def c0 n0 r0)
  obtain s2 where r: "benchmark_read w RANDOM 1 s1 = Some (Returns s2)"
    and k: "count_list (drop (length (calls s1)) (calls s2)) (Step read_stmt)
         = nat (min (reads_' s1) MAXNUMPERTIME)"
    and f: "num_' s2 = num_' s1"
    using read_observed [OF ok, of RANDOM s1] by blast
  define s3 where "s3 = stop w ''readrand100K'' (s2\<lparr>reads_' := reads_' s0\<rparr>)"
  have "(\<lambda>s. (let n = reads_' s
         in steps [\<lambda>s. ret (s\<lparr>reads_' := c_div (reads_' s) 1000\<rparr>),
                   benchmark_read w RANDOM 1,
                   \<lambda>s. ret (s\<lparr>reads_' := n\<rparr>)] s)) s0 = Some (Returns (s2\<lparr>reads_' := reads_' s0\<rparr>))"
    using r by (simp add: Let_def thn_def ret_def s1_def)
  then have run: "run_benchmark w ''readrand100K'' s = Some (Returns s3)"
    using run_benchmark_known [OF ok workload_readrand100K, of s "s2\<lparr>reads_' := reads_' s0\<rparr>"]
    by (simp add: s0_def s3_def)
  have o: "count_list (drop (length (calls s)) (calls s3)) (Step read_stmt)
         = nat (min (c_div (reads_' s) 1000) MAXNUMPERTIME)"
    "reads_' s3 = reads_' s" "num_' s3 = num_' s"
    using k f by (simp_all add: s3_def c1 r1 n1 r0)
  obtain s4 where "run_benchmark w ''readrandom'' s3 = Some (Returns s4)"
    and "count_list (drop (length (calls s3)) (calls s4)) (Step read_stmt)
         = nat (min (reads_' s3) MAXNUMPERTIME)"
    and "reads_' s4 = reads_' s3"
    using read_workload_observed [OF ok workload_read(2) nf', of s3] by blast
  then show ?thesis
    using run o by (intro exI [of _ s3] conjI exI [of _ s4]) simp_all
qed

theorem readrand100K_read_count_witness:
  "(\<forall>k. db_ok (calm_world (init\<lparr>FLAGS_reads := 100000\<rparr>) 1) k)
   \<and> (\<exists>s'. run_benchmark (calm_world (init\<lparr>FLAGS_reads := 100000\<rparr>) 1) ''readrand100K''
             (benchmark_init (calm_world (init\<lparr>FLAGS_reads := 100000\<rparr>) 1)) = Some (Returns s')
         \<and> count_list (calls s') (Step read_stmt) = 100
         \<and> reads_' s' = 100000
         \<and> (\<exists>s''. run_benchmark (calm_world (init\<lparr>FLAGS_reads := 100000\<rparr>) 1) ''readrandom'' s'
                 = Some (Returns s'')
               \<and> count_list (drop (length (calls s')) (calls s'')) (Step read_stmt) = 100000))"
proof -
  let ?w = "calm_world (init\<lparr>FLAGS_reads := 100000\<rparr>) 1"
  have ok: "\<forall>k. db_ok ?w k" by (simp add: calm_world_def)
  have rd: "reads_' (benchmark_init ?w) = 100000" and c: "calls (benchmark_init ?w) = []"
    by (simp_all add: benchmark_init_def calm_world_def init_def)
  have d: "nat (min (c_div 100000 1000) MAXNUMPERTIME) = 100"
    and m: "nat (min 100000 MAXNUMPERTIME) = 100000"
    by (simp_all add: c_div_def MAXNUMPERTIME_def)
  show ?thesis
    using readrand100K_read_count [OF ok, of "benchmark_init ?w"] ok
    by (simp add: rd c d m) blast
qed

section \<open>Unknown workload names\<close>

text \<open>
  Claim C5. A name that is not empty and is none of the recognized names makes the
  driver print the warning that names it and nothing else: no call into the engine is
  made for it, no summary line is printed and the counters stay at zero. The skip is
  not fatal: when the name is the last of the list the loop returns, in the state the
  skip has left; when more names follow, the loop goes on with them from that state,
  and the name after it is run as any name is.
\<close>

theorem unknown_benchmark_skipped:
  assumes ne: "name \<noteq> []" and un: "name \<notin> set recognized"
  shows "\<exists>s'. run_benchmark w name s = Some (Returns s')
     \<and> calls s' = calls s
     \<and> printed s' = printed s @ [Unknown_benchmark name]
     \<and> op_total_time_' s' = 0 \<and> done_' s' = 0 \<and> bytes_' s' = 0
     \<and> num_' s' = num_' s \<and> reads_' s' = reads_' s
     \<and> (CHR '','' \<notin> set name \<longrightarrow>
          run_benchmarks w (Some name) s = Some (Returns s')
        \<and> run_benchmarks w (Some (name @ CHR '','' # rest)) s = run_benchmarks w (Some rest) s'
        \<and> (CHR '','' \<notin> set rest \<longrightarrow>
             run_benchmarks w (Some (name @ CHR '','' # rest)) s = run_benchmark w rest s'))"
proof -
  have wl: "workload w name = None"
    using un workload_recognized [of w name] by simp
  have fr: "name \<notin> set fresh_table_workloads"
    using un fresh_recognized by blast
  define s' where "s' = (start (s\<lparr>bytes_' := 0\<rparr>))\<lparr>printed := printed s @ [Unknown_benchmark name]\<rparr>"
  have run: "run_benchmark w name s = Some (Returns s')"
    using run_benchmark_unknown [OF wl fr, of s] ne by (simp add: s'_def)
  have none: "run_benchmarks w None t = Some (Returns t)" for t
    by (subst run_benchmarks.simps) simp
  have single: "run_benchmarks w (Some b) t = run_benchmark w b t"
    if "CHR '','' \<notin> set b" for b t
  proof -
    have tw: "takeWhile (\<lambda>c. c \<noteq> CHR '','') b = b"
      using that by (intro takeWhile_eq_all_conv [THEN iffD2]) auto
    show ?thesis
      by (subst run_benchmarks.simps)
        (simp add: tw that none split: option.split outcome.split)
  qed
  have cont: "run_benchmarks w (Some (name @ CHR '','' # rest)) s = run_benchmarks w (Some rest) s'"
    if "CHR '','' \<notin> set name"
  proof -
    have "takeWhile (\<lambda>c. c \<noteq> CHR '','') (name @ CHR '','' # rest) = name"
      using that by (auto simp: takeWhile_tail)
    moreover have "dropWhile (\<lambda>c. c \<noteq> CHR '','') (name @ CHR '','' # rest)
        = dropWhile (\<lambda>c. c \<noteq> CHR '','') (CHR '','' # rest)"
      using that by (intro dropWhile_append2) auto
    ultimately show ?thesis
      by (subst run_benchmarks.simps) (simp add: run)
  qed
  have last: "run_benchmarks w (Some name) s = Some (Returns s')" if "CHR '','' \<notin> set name"
    using single [OF that, of s] run by simp
  have nxt: "run_benchmarks w (Some (name @ CHR '','' # rest)) s = run_benchmark w rest s'"
    if "CHR '','' \<notin> set name" and "CHR '','' \<notin> set rest"
    using cont [OF that(1)] single [OF that(2), of s'] by simp
  show ?thesis
    using run cont last nxt by (intro exI [of _ s']) (simp add: s'_def start_def)
qed

theorem unknown_benchmark_skipped_witness:
  "''bogus'' \<noteq> [] \<and> ''bogus'' \<notin> set recognized \<and> CHR '','' \<notin> set ''bogus''
   \<and> ''xyz'' \<noteq> [] \<and> ''xyz'' \<notin> set recognized \<and> CHR '','' \<notin> set ''xyz''
   \<and> (\<exists>s'. run_benchmark (calm_world init 1) ''bogus'' (benchmark_init (calm_world init 1))
              = Some (Returns s')
          \<and> calls s' = [] \<and> printed s' = [Unknown_benchmark ''bogus'']
          \<and> run_benchmarks (calm_world init 1) (Some ''bogus'') (benchmark_init (calm_world init 1))
              = Some (Returns s')
          \<and> run_benchmarks (calm_world init 1) (Some ''bogus,xyz'') (benchmark_init (calm_world init 1))
              = run_benchmarks (calm_world init 1) (Some ''xyz'') s')
   \<and> (\<exists>s''. run_benchmarks (calm_world init 1) (Some ''bogus,xyz'') (benchmark_init (calm_world init 1))
              = Some (Returns s'')
          \<and> calls s'' = []
          \<and> printed s'' = [Unknown_benchmark ''bogus'', Unknown_benchmark ''xyz''])
   \<and> count_list (calls_of (run_benchmarks (calm_world (init\<lparr>FLAGS_num := 2\<rparr>) 1)
         (Some ''bogus,fillseq'') (benchmark_init (calm_world (init\<lparr>FLAGS_num := 2\<rparr>) 1))))
       (Step replace_stmt) = 2"
proof -
  let ?w = "calm_world init 1"
  have ne: "''bogus'' \<noteq> []" and un: "''bogus'' \<notin> set recognized"
    and cm: "CHR '','' \<notin> set ''bogus''"
    and ne2: "''xyz'' \<noteq> []" and un2: "''xyz'' \<notin> set recognized"
    and cm2: "CHR '','' \<notin> set ''xyz''"
    by (simp_all add: recognized_def)
  have c: "calls (benchmark_init ?w) = []" and p: "printed (benchmark_init ?w) = []"
    by (simp_all add: benchmark_init_def)
  obtain s' where r1: "run_benchmark ?w ''bogus'' (benchmark_init ?w) = Some (Returns s')"
    and c1: "calls s' = []" and p1: "printed s' = [Unknown_benchmark ''bogus'']"
    and l1: "run_benchmarks ?w (Some ''bogus'') (benchmark_init ?w) = Some (Returns s')"
    and k1: "run_benchmarks ?w (Some ''bogus,xyz'') (benchmark_init ?w)
        = run_benchmarks ?w (Some ''xyz'') s'"
    using unknown_benchmark_skipped [OF ne un, of ?w "benchmark_init ?w" "''xyz''"] cm
    by (simp add: c p) blast
  obtain s'' where l2: "run_benchmarks ?w (Some ''xyz'') s' = Some (Returns s'')"
    and c2: "calls s'' = []"
    and p2: "printed s'' = [Unknown_benchmark ''bogus'', Unknown_benchmark ''xyz'']"
    using unknown_benchmark_skipped [OF ne2 un2, of ?w s' "[]"] cm2
    by (simp add: c1 p1) blast
  have both: "\<exists>s''. run_benchmarks ?w (Some ''bogus,xyz'') (benchmark_init ?w) = Some (Returns s'')
          \<and> calls s'' = []
          \<and> printed s'' = [Unknown_benchmark ''bogus'', Unknown_benchmark ''xyz'']"
    using k1 l2 c2 p2 by simp
  have first: "\<exists>s'. run_benchmark ?w ''bogus'' (benchmark_init ?w) = Some (Returns s')
          \<and> calls s' = [] \<and> printed s' = [Unknown_benchmark ''bogus'']
          \<and> run_benchmarks ?w (Some ''bogus'') (benchmark_init ?w) = Some (Returns s')
          \<and> run_benchmarks ?w (Some ''bogus,xyz'') (benchmark_init ?w)
              = run_benchmarks ?w (Some ''xyz'') s'"
    using r1 c1 p1 l1 k1 by blast
  have after: "count_list (calls_of (run_benchmarks (calm_world (init\<lparr>FLAGS_num := 2\<rparr>) 1)
         (Some ''bogus,fillseq'') (benchmark_init (calm_world (init\<lparr>FLAGS_num := 2\<rparr>) 1))))
       (Step replace_stmt) = 2"
    by code_simp
  show ?thesis
    using ne un cm ne2 un2 cm2 first both after by blast
qed
section \<open>The summary of a workload\<close>

lemma stop_message:
  assumes "0 < bytes_' s"
  shows "message_' (stop w name s) =
     (let rate = take (rate_strlen w - 1) (rate_text w (bytes_' s) (op_total_time_' s))
      in if message_' s = Some [] then Some (rate @ '' '') else Some rate)"
  using assms by (simp add: stop_def Let_def split: option.split)

lemma stop_drops_message:
  "message_' (stop w name (s\<lparr>bytes_' := 100004000, message_' := Some ''(1000 ops)''\<rparr>))
     = Some (take (rate_strlen w - 1) (rate_text w 100004000 (op_total_time_' s)))"
  by (simp add: stop_def Let_def)

lemma workload_100K:
  "workload w ''fillseq100K'' = Some (\<lambda>s. steps
     [benchmark_write w False SEQUENTIAL ((\<lambda>x. c_div x 1000) (num_' s)) 100000 1,
      wal_checkpoint w] s)"
  "workload w ''fillrand100K'' = Some (\<lambda>s. steps
     [benchmark_write w False RANDOM ((\<lambda>x. c_div x 1000) (num_' s)) 100000 1,
      wal_checkpoint w] s)"
  by (simp_all add: workload_def)

lemma dec_1000: "take 99 (''('' @ dec 1000 @ '' ops)'') = ''(1000 ops)''"
  by code_simp

text \<open>
  \<^verbatim>\<open>fillseq100K\<close> on a million entries, all engine calls succeeding: the workload
  writes 1000 values, sets the message \<^verbatim>\<open>"(1000 ops)"\<close> and records 100,004,000 bytes;
  after \<^verbatim>\<open>stop\<close> the message is the rate text alone.
\<close>

lemma fillseq100K_message:
  assumes ok: "\<forall>k. db_ok w k" and num: "num_' s = 1000000"
  shows "\<exists>s'. run_benchmark w ''fillseq100K'' s = Some (Returns s')
     \<and> message_' s' = Some (take (rate_strlen w - 1)
          (rate_text w 100004000 (now_micros w (clock s + 1) - now_micros w (clock s))))"
proof -
  have b: "(0::int) < 1" by simp
  have d: "c_div 1000000 1000 = 1000" by (simp add: c_div_def)
  obtain s' s2 where run: "run_benchmark w ''fillseq100K'' s = Some (Returns s')"
    and s': "s' = stop w ''fillseq100K'' s2"
    and by2: "bytes_' s2 = 100004000"
    and m2: "message_' s2 = Some ''(1000 ops)''"
    and t2: "op_total_time_' s2 = now_micros w (clock s + 1) - now_micros w (clock s)"
    using write_workload_observed [OF ok b workload_100K(1), of s] dec_1000
    by (auto simp: num d MAXNUMPERTIME_def)
  have "message_' s' = Some (take (rate_strlen w - 1)
          (rate_text w 100004000 (now_micros w (clock s + 1) - now_micros w (clock s))))"
    using stop_message [of s2 w "''fillseq100K''"] by (simp add: s' by2 m2 t2 Let_def)
  then show ?thesis using run by blast
qed

text \<open>
  Claim C7 against the code. \<^verbatim>\<open>fillseq100K\<close> with the default million entries records
  bytes and sets the operation-specific message \<^verbatim>\<open>"(1000 ops)"\<close>; after \<^verbatim>\<open>stop\<close> the
  message is the rate text alone: the message was not kept behind it, it was replaced.
  The condition of \<^verbatim>\<open>stop\<close> prepends the rate to the message when the message is
  empty and drops the message when it is not.
\<close>

theorem fillseq100K_message_lost:
  "\<exists>s'. run_benchmark (calm_world init 1) ''fillseq100K'' (benchmark_init (calm_world init 1))
          = Some (Returns s')
       \<and> message_' s' = Some ''   0.0 MB/s''"
proof -
  let ?w = "calm_world init 1"
  have ok: "\<forall>k. db_ok ?w k" by (simp add: calm_world_def)
  have num: "num_' (benchmark_init ?w) = 1000000"
    by (simp add: benchmark_init_def calm_world_def init_def)
  have r: "take (rate_strlen ?w - 1) (rate_text ?w b t) = ''   0.0 MB/s''" for b t
    by (simp add: calm_world_def)
  show ?thesis
    by (rule fillseq100K_message [OF ok num, unfolded r])
qed

section \<open>The time value reaches a run through the seed only\<close>










section \<open>The seed of the key generator\<close>







end
